theory Spec2Isabelle
  imports Main "HOL-Library.Sublist"
begin

section \<open>Data model\<close>

text \<open>
  Untrusted values, as \<open>JSON.parse\<close> produces them and as \<open>validateTasks\<close> receives
  them (\<open>unknown[]\<close>).  Strings are sequences of code units; only code units below 256
  are represented.  The payload of a number is never inspected by the code modelled here.
\<close>

datatype json =
    JUndefined
  | JNull
  | JBool bool
  | JNum int
  | JStr string
  | JArr "json list"
  | JObj "(string \<times> json) list"

datatype js_type = TUndefined | TObject | TBoolean | TNumber | TString

text \<open>The operand of \<open>!v\<close> is falsy.\<close>

fun falsy :: "json \<Rightarrow> bool" where
  "falsy JUndefined = True"
| "falsy JNull = True"
| "falsy (JBool b) = (\<not> b)"
| "falsy (JNum n) = (n = 0)"
| "falsy (JStr s) = (s = [])"
| "falsy (JArr xs) = False"
| "falsy (JObj kvs) = False"

fun typeof :: "json \<Rightarrow> js_type" where
  "typeof JUndefined = TUndefined"
| "typeof JNull = TObject"
| "typeof (JBool b) = TBoolean"
| "typeof (JNum n) = TNumber"
| "typeof (JStr s) = TString"
| "typeof (JArr xs) = TObject"
| "typeof (JObj kvs) = TObject"

text \<open>
  Property read \<open>t.k\<close> for the keys the sanitizer reads (\<open>id\<close>, \<open>description\<close>,
  \<open>priority\<close>, \<open>dependencies\<close>): an object yields its own property, an array has none
  of these.  The list of an object holds its own properties, one entry per key; should a
  key occur twice, its first entry is the property.
\<close>

fun get_prop :: "json \<Rightarrow> string \<Rightarrow> json" where
  "get_prop (JObj kvs) k = (case map_of kvs k of Some v \<Rightarrow> v | None \<Rightarrow> JUndefined)"
| "get_prop v k = JUndefined"

text \<open>\<open>String.prototype.trim\<close>: white space and line terminators below code unit 256.\<close>

definition is_ws :: "char \<Rightarrow> bool" where
  "is_ws c = (of_char c \<in> {9, 10, 11, 12, 13, 32, 160 :: nat})"

definition trim :: "string \<Rightarrow> string" where
  "trim s = rev (dropWhile is_ws (rev (dropWhile is_ws s)))"

text \<open>\<open>Array.prototype.join\<close> on strings.\<close>

fun join :: "string \<Rightarrow> string list \<Rightarrow> string" where
  "join sep [] = []"
| "join sep [x] = x"
| "join sep (x # y # ys) = x @ sep @ join sep (y # ys)"

text \<open>
  A JavaScript \<open>Set\<close> of strings keeps insertion order; it is a duplicate-free list,
  \<open>set_add\<close> is \<open>Set.prototype.add\<close> and \<open>array_to_set\<close> is \<open>new Set(array)\<close>.
\<close>

definition set_add :: "string \<Rightarrow> string list \<Rightarrow> string list" where
  "set_add x s = (if x \<in> set s then s else s @ [x])"

definition array_to_set :: "string list \<Rightarrow> string list" where
  "array_to_set xs = fold set_add xs []"

datatype priority = Low | Medium | High

text \<open>
  Task status: \<open>ValidatedTask\<close> declares pending, ready, blocked and error; the task model
  (\<open>ITask\<close>) and \<open>setTaskCompletion\<close> add completed.
\<close>

datatype status = Pending | Ready | Blocked | Error | Completed

text \<open>
  \<open>ValidatedTask\<close>.  The field \<open>id\<close> is called \<open>task_id\<close> here.  \<open>completed\<close> is the
  property that \<open>setTaskCompletion\<close> adds to a task of a stored result; it is absent
  (\<open>None\<close>) on every task the pipeline builds.
\<close>

record ValidatedTask =
  task_id :: string
  description :: string
  priority :: priority
  dependencies :: "string list"
  status :: status
  completed :: "bool option"

record CycleDetectionResult =
  hasCycle :: bool
  cycles :: "string list list"
  errorTaskIds :: "string list"

record SanitizationReport =
  invalidDependenciesRemoved :: nat
  tasksMarkedAsError :: nat

record ProcessingResult =
  tasks :: "ValidatedTask list"
  circularDependencies :: "string list list"
  sanitizationReport :: SanitizationReport

text \<open>A thrown value: an \<open>Error\<close> with its message, or anything else.\<close>

datatype thrown = JsError string | NonError

section \<open>ValidationService\<close>

definition parse_priority :: "json \<Rightarrow> priority option" where
  "parse_priority p =
     (if p = JStr ''low'' then Some Low
      else if p = JStr ''medium'' then Some Medium
      else if p = JStr ''high'' then Some High
      else None)"

text \<open>The filter on \<open>t.dependencies\<close>: strings that are not blank are kept, untrimmed.\<close>

fun string_deps :: "json list \<Rightarrow> string list" where
  "string_deps [] = []"
| "string_deps (JStr s # ds) = (if trim s \<noteq> [] then s # string_deps ds else string_deps ds)"
| "string_deps (d # ds) = string_deps ds"

definition validateTaskSchema :: "json \<Rightarrow> ValidatedTask option" where
  "validateTaskSchema task =
     (if falsy task \<or> typeof task \<noteq> TObject then None
      else case get_prop task ''id'' of
        JStr i \<Rightarrow>
          if trim i = [] then None
          else (case get_prop task ''description'' of
            JStr d \<Rightarrow>
              if trim d = [] then None
              else (case parse_priority (get_prop task ''priority'') of
                None \<Rightarrow> None
              | Some pr \<Rightarrow>
                  (case get_prop task ''dependencies'' of
                    JArr ds \<Rightarrow>
                      Some \<lparr>task_id = trim i, description = trim d, priority = pr,
                            dependencies = string_deps ds, status = Pending,
                            completed = None\<rparr>
                  | _ \<Rightarrow> None))
          | _ \<Rightarrow> None)
      | _ \<Rightarrow> None)"

text \<open>
  First pass of \<open>validateTasks\<close>: one iteration of the loop over \<open>tasks\<close>, on the
  variables \<open>validated\<close>, \<open>validTaskIds\<close> and \<open>duplicateIds\<close>.
\<close>

definition first_pass_step ::
  "json \<Rightarrow> ValidatedTask list \<times> string list \<times> string list
        \<Rightarrow> ValidatedTask list \<times> string list \<times> string list" where
  "first_pass_step task acc =
     (case acc of (validated, validTaskIds, duplicateIds) \<Rightarrow>
        (case validateTaskSchema task of
           None \<Rightarrow> (validated, validTaskIds, duplicateIds)
         | Some validated_task \<Rightarrow>
             if task_id validated_task \<in> set validTaskIds
             then (validated, validTaskIds, duplicateIds @ [task_id validated_task])
             else (validated @ [validated_task],
                   set_add (task_id validated_task) validTaskIds, duplicateIds)))"

definition duplicate_message :: "string list \<Rightarrow> string" where
  "duplicate_message duplicateIds =
     ''Validation failed: duplicate task IDs detected: ''
       @ join '', '' (array_to_set duplicateIds)"

text \<open>Second pass: the dependencies of one task, filtered by \<open>validTaskIds\<close>.\<close>

definition sanitize_task :: "string list \<Rightarrow> ValidatedTask \<Rightarrow> ValidatedTask" where
  "sanitize_task validTaskIds task =
     task\<lparr>dependencies := filter (\<lambda>depId. depId \<in> set validTaskIds) (dependencies task)\<rparr>"

definition removed_count :: "string list \<Rightarrow> ValidatedTask \<Rightarrow> nat" where
  "removed_count validTaskIds task =
     length (dependencies task)
       - length (dependencies (sanitize_task validTaskIds task))"

text \<open>
  \<open>validateTasks\<close> returns \<open>{ validated, invalidDependenciesRemoved }\<close>, here a pair, or
  throws.
\<close>

definition validateTasks :: "json list \<Rightarrow> thrown + (ValidatedTask list \<times> nat)" where
  "validateTasks records =
     (case fold first_pass_step records ([], [], []) of
        (validated, validTaskIds, duplicateIds) \<Rightarrow>
          if length duplicateIds > 0 then Inl (JsError (duplicate_message duplicateIds))
          else Inr (map (sanitize_task validTaskIds) validated,
                    sum_list (map (removed_count validTaskIds) validated)))"

section \<open>GraphService\<close>

text \<open>
  The adjacency \<open>Map\<close>, in insertion order of its keys.  \<open>graph_set\<close> is \<open>Map.set\<close>,
  \<open>neighbors\<close> is \<open>graph.get(nodeId) || []\<close>.
\<close>

type_synonym graph = "(string \<times> string list) list"

fun graph_set :: "string \<Rightarrow> string list \<Rightarrow> graph \<Rightarrow> graph" where
  "graph_set k v [] = [(k, v)]"
| "graph_set k v ((k', v') # g) = (if k' = k then (k, v) # g else (k', v') # graph_set k v g)"

definition neighbors :: "graph \<Rightarrow> string \<Rightarrow> string list" where
  "neighbors g nodeId = (case map_of g nodeId of None \<Rightarrow> [] | Some deps \<Rightarrow> deps)"

text \<open>
  The inner loop body of the adjacency construction: \<open>graph.get(task.id)!\<close> is the array
  stored under the key, which exists since the key was set just before.
\<close>

definition add_dep :: "string \<Rightarrow> string \<Rightarrow> graph \<Rightarrow> graph" where
  "add_dep k dep g =
     (case map_of g k of
        None \<Rightarrow> g
      | Some deps \<Rightarrow> if dep \<in> set deps then g else graph_set k (deps @ [dep]) g)"

definition add_task :: "ValidatedTask \<Rightarrow> graph \<Rightarrow> graph" where
  "add_task task g =
     fold (add_dep (task_id task)) (dependencies task)
       (if map_of g (task_id task) \<noteq> None then g else graph_set (task_id task) [] g)"

definition build_graph :: "ValidatedTask list \<Rightarrow> graph" where
  "build_graph task_list = fold add_task task_list []"

text \<open>The variables the closure \<open>dfs\<close> captures.\<close>

record dfs_state =
  visited :: "string set"
  visiting :: "string set"
  st_cycles :: "string list list"
  st_errorTaskIds :: "string list"

text \<open>The branch \<open>visiting.has(nodeId)\<close>: \<open>indexOf\<close>, \<open>slice\<close>, \<open>concat\<close>, \<open>push\<close>.\<close>

definition record_cycle :: "string \<Rightarrow> string list \<Rightarrow> dfs_state \<Rightarrow> dfs_state" where
  "record_cycle nodeId path st =
     (if nodeId \<in> set path
      then (let cycle = dropWhile (\<lambda>x. x \<noteq> nodeId) path @ [nodeId]
            in st\<lparr>st_cycles := st_cycles st @ [cycle],
                  st_errorTaskIds := fold set_add cycle (st_errorTaskIds st)\<rparr>)
      else st)"

text \<open>
  The recursive closure \<open>dfs(nodeId, path)\<close>.  \<open>Visit nodeId\<close> is one call of it;
  \<open>Each ns\<close> is the remainder \<open>ns\<close> of its loop over \<open>neighbors\<close>, where \<open>path\<close> already
  holds the node being expanded (every neighbour gets a copy of it).

  Every call of \<open>dfs\<close> takes a frame of the runtime's call stack, and the closure calls
  itself once per node of the path.  \<open>frames\<close> is the number of nested calls of \<open>dfs\<close>
  the stack still has room for: a call made with no room left throws \<open>RangeError\<close>,
  which nothing in \<open>detectCycles\<close> catches.  A run ends with the new state (\<open>Inr\<close>) or
  with the thrown value (\<open>Inl\<close>); a run that does not return is \<open>None\<close>.
\<close>

definition range_error :: thrown where
  "range_error = JsError ''Maximum call stack size exceeded''"

datatype dfs_call = Visit string | Each "string list"

partial_function (option) dfs ::
  "nat \<Rightarrow> graph \<Rightarrow> dfs_call \<Rightarrow> string list \<Rightarrow> dfs_state \<Rightarrow> (thrown + dfs_state) option" where
  "dfs frames g c path st =
     (case c of
        Visit nodeId \<Rightarrow>
          (case frames of
             0 \<Rightarrow> Some (Inl range_error)
           | Suc below \<Rightarrow>
               if nodeId \<in> visiting st then Some (Inr (record_cycle nodeId path st))
               else if nodeId \<in> visited st then Some (Inr st)
               else Option.bind
                      (dfs below g (Each (neighbors g nodeId)) (path @ [nodeId])
                         (st\<lparr>visiting := insert nodeId (visiting st)\<rparr>))
                      (\<lambda>r. case r of
                         Inl e \<Rightarrow> Some (Inl e)
                       | Inr st' \<Rightarrow>
                           Some (Inr (st'\<lparr>visiting := visiting st' - {nodeId},
                                         visited := insert nodeId (visited st')\<rparr>))))
      | Each [] \<Rightarrow> Some (Inr st)
      | Each (neighbor # rest) \<Rightarrow>
          Option.bind (dfs frames g (Visit neighbor) path st)
            (\<lambda>r. case r of
               Inl e \<Rightarrow> Some (Inl e)
             | Inr st' \<Rightarrow> dfs frames g (Each rest) path st'))"

declare dfs.simps [code]

text \<open>The loop over \<open>graph.keys()\<close>.\<close>

fun run_roots ::
  "nat \<Rightarrow> graph \<Rightarrow> string list \<Rightarrow> dfs_state \<Rightarrow> (thrown + dfs_state) option" where
  "run_roots frames g [] st = Some (Inr st)"
| "run_roots frames g (taskId # rest) st =
     (if taskId \<notin> visited st
      then Option.bind (dfs frames g (Visit taskId) [] st)
             (\<lambda>r. case r of
                Inl e \<Rightarrow> Some (Inl e)
              | Inr st' \<Rightarrow> run_roots frames g rest st')
      else run_roots frames g rest st)"

definition initial_state :: dfs_state where
  "initial_state = \<lparr>visited = {}, visiting = {}, st_cycles = [], st_errorTaskIds = []\<rparr>"

definition report :: "dfs_state \<Rightarrow> CycleDetectionResult" where
  "report st = \<lparr>hasCycle = (length (st_cycles st) > 0), cycles = st_cycles st,
                errorTaskIds = st_errorTaskIds st\<rparr>"

text \<open>
  \<open>detectCycles\<close> returns the report or throws; \<open>frames\<close> is the room the stack has for
  nested calls of \<open>dfs\<close> when \<open>detectCycles\<close> runs.
\<close>

definition detectCycles ::
  "nat \<Rightarrow> ValidatedTask list \<Rightarrow> (thrown + CycleDetectionResult) option" where
  "detectCycles frames task_list =
     (let g = build_graph task_list
      in map_option (map_sum (\<lambda>e. e) report)
           (run_roots frames g (map fst g) initial_state))"

definition markCyclicTasksAsError ::
  "ValidatedTask list \<Rightarrow> CycleDetectionResult \<Rightarrow> ValidatedTask list" where
  "markCyclicTasksAsError task_list cycleDetection =
     map (\<lambda>task. task\<lparr>status := (if task_id task \<in> set (errorTaskIds cycleDetection)
                                  then Error else status task)\<rparr>) task_list"

definition determineTaskStatus :: "ValidatedTask \<Rightarrow> string set \<Rightarrow> status" where
  "determineTaskStatus task allTaskIds =
     (if status task = Error then Error
      else if length (dependencies task) = 0 then Ready
      else if (\<forall>dep \<in> set (dependencies task). dep \<in> allTaskIds) then Blocked
      else Ready)"

text \<open>
  Steps 4 to 6 of \<open>processTranscript\<close>: marking, final status, result object.
\<close>

definition final_tasks :: "ValidatedTask list \<Rightarrow> CycleDetectionResult \<Rightarrow> ValidatedTask list" where
  "final_tasks sanitizedTasks cycleResult =
     (let processedTasks = markCyclicTasksAsError sanitizedTasks cycleResult;
          allTaskIds = set (map task_id processedTasks)
      in map (\<lambda>task. if status task = Error then task
                      else task\<lparr>status := determineTaskStatus task allTaskIds\<rparr>)
           processedTasks)"

definition build_result ::
  "ValidatedTask list \<Rightarrow> nat \<Rightarrow> CycleDetectionResult \<Rightarrow> ProcessingResult" where
  "build_result sanitizedTasks removed cycleResult =
     \<lparr>tasks = final_tasks sanitizedTasks cycleResult,
      circularDependencies = cycles cycleResult,
      sanitizationReport =
        \<lparr>invalidDependenciesRemoved = removed,
         tasksMarkedAsError = length (errorTaskIds cycleResult)\<rparr>\<rparr>"

section \<open>DatabaseService\<close>

datatype job_status = JProcessing | JDone | JError

text \<open>
  A document of the job collection (\<open>IJob\<close>); the field \<open>status\<close> is \<open>job_status\<close> here,
  and an activity keeps its message only.
\<close>

record Job =
  jobId :: string
  transcript :: string
  transcriptHash :: string
  job_status :: job_status
  result :: "ProcessingResult option"
  error :: "string option"
  activities :: "string list"

text \<open>
  A document of the task collection (\<open>ITask\<close>); fields that share a name with
  \<open>ValidatedTask\<close> or \<open>Job\<close> carry the prefix \<open>doc\<close>.
\<close>

record TaskDoc =
  doc_jobId :: string
  taskId :: string
  doc_description :: string
  doc_priority :: priority
  doc_dependencies :: "string list"
  doc_status :: status

text \<open>
  What the services act on: the two collections, in insertion order, and the log of
  transcripts handed to the generative model.
\<close>

record world =
  JobModel :: "Job list"
  TaskModel :: "TaskDoc list"
  llm_calls :: "string list"

text \<open>
  Every database operation awaits the driver and may reject.  \<open>F op = Some e\<close> says
  that operation \<open>op\<close> rejects with \<open>e\<close>, before it writes anything.
\<close>

datatype db_op =
    OpFindExistingJob
  | OpCreateJob
  | OpCompleteJob
  | OpFailJob
  | OpSaveTasks
  | OpSetTaskCompletion

type_synonym faults = "db_op \<Rightarrow> thrown option"

text \<open>\<open>updateOne\<close>: the first document that matches the filter is updated, if any.\<close>

fun update_first :: "('a \<Rightarrow> bool) \<Rightarrow> ('a \<Rightarrow> 'a) \<Rightarrow> 'a list \<Rightarrow> 'a list" where
  "update_first P f [] = []"
| "update_first P f (x # xs) = (if P x then f x # xs else x # update_first P f xs)"

text \<open>
  \<open>hashTranscript\<close> is the SHA-256 digest of the Node runtime; it is the parameter \<open>H\<close> of
  every definition that uses it.
\<close>

definition findExistingJob ::
  "(string \<Rightarrow> string) \<Rightarrow> faults \<Rightarrow> string \<Rightarrow> world \<Rightarrow> thrown + string option" where
  "findExistingJob H F txt w =
     (case F OpFindExistingJob of
        Some e \<Rightarrow> Inl e
      | None \<Rightarrow> Inr (map_option jobId (find (\<lambda>j. transcriptHash j = H txt) (JobModel w))))"

text \<open>
  \<open>createJob\<close>: \<open>job.save()\<close> is refused by the unique indexes on \<open>jobId\<close> and on
  \<open>transcriptHash\<close> when either value is already stored.
\<close>

definition duplicate_key_error :: thrown where
  "duplicate_key_error = JsError ''E11000 duplicate key error''"

text \<open>The document \<open>new JobModel({ jobId, transcript, transcriptHash, status: 'processing' })\<close>.\<close>

definition new_job :: "string \<Rightarrow> string \<Rightarrow> string \<Rightarrow> Job" where
  "new_job jid txt hash =
     \<lparr>jobId = jid, transcript = txt, transcriptHash = hash, job_status = JProcessing,
      result = None, error = None, activities = []\<rparr>"

definition createJob ::
  "(string \<Rightarrow> string) \<Rightarrow> faults \<Rightarrow> string \<Rightarrow> string \<Rightarrow> world \<Rightarrow> thrown + world" where
  "createJob H F jid txt w =
     (case F OpCreateJob of
        Some e \<Rightarrow> Inl e
      | None \<Rightarrow>
          if \<exists>j \<in> set (JobModel w). jobId j = jid \<or> transcriptHash j = H txt
          then Inl duplicate_key_error
          else Inr (w\<lparr>JobModel := JobModel w @ [new_job jid txt (H txt)]\<rparr>))"

definition completeJob :: "faults \<Rightarrow> string \<Rightarrow> ProcessingResult \<Rightarrow> world \<Rightarrow> thrown + world" where
  "completeJob F jid res w =
     (case F OpCompleteJob of
        Some e \<Rightarrow> Inl e
      | None \<Rightarrow>
          Inr (w\<lparr>JobModel := update_first (\<lambda>j. jobId j = jid)
                 (\<lambda>j. j\<lparr>job_status := JDone, result := Some res\<rparr>) (JobModel w)\<rparr>))"

definition failJob :: "faults \<Rightarrow> string \<Rightarrow> string \<Rightarrow> world \<Rightarrow> thrown + world" where
  "failJob F jid msg w =
     (case F OpFailJob of
        Some e \<Rightarrow> Inl e
      | None \<Rightarrow>
          Inr (w\<lparr>JobModel := update_first (\<lambda>j. jobId j = jid)
                 (\<lambda>j. j\<lparr>job_status := JError, error := Some msg\<rparr>) (JobModel w)\<rparr>))"

definition task_doc :: "string \<Rightarrow> ValidatedTask \<Rightarrow> TaskDoc" where
  "task_doc jid task =
     \<lparr>doc_jobId = jid, taskId = task_id task, doc_description = description task,
      doc_priority = priority task, doc_dependencies = dependencies task,
      doc_status = status task\<rparr>"

definition saveTasks :: "faults \<Rightarrow> string \<Rightarrow> ValidatedTask list \<Rightarrow> world \<Rightarrow> thrown + world" where
  "saveTasks F jid task_list w =
     (case F OpSaveTasks of
        Some e \<Rightarrow> Inl e
      | None \<Rightarrow> Inr (w\<lparr>TaskModel := TaskModel w @ map (task_doc jid) task_list\<rparr>))"

text \<open>
  \<open>setTaskCompletion\<close> returns \<open>null\<close> (\<open>None\<close>) or the updated result.  \<open>find\<close> is
  \<open>findOne\<close> and \<open>Array.prototype.find\<close>: the first match.

  The task is rewritten inside the object held at the path \<open>result\<close> of the job document
  in memory, and that object is what the method returns.  The path is of schema type
  \<open>Mixed\<close> and the method never calls \<open>markModified\<close>, so \<open>job.save()\<close> does not write
  it: of the job document only the pushed activity reaches the store, and the stored
  result stays as it was.  \<open>TaskModel.updateOne\<close> does write the new status to the task
  document.
\<close>

definition setTaskCompletion ::
  "faults \<Rightarrow> string \<Rightarrow> string \<Rightarrow> bool \<Rightarrow> world \<Rightarrow> thrown + (ProcessingResult option \<times> world)" where
  "setTaskCompletion F jid tid done w =
     (case F OpSetTaskCompletion of
        Some e \<Rightarrow> Inl e
      | None \<Rightarrow>
          (case find (\<lambda>j. jobId j = jid) (JobModel w) of
             None \<Rightarrow> Inr (None, w)
           | Some job \<Rightarrow>
               (case result job of
                  None \<Rightarrow> Inr (None, w)
                | Some res \<Rightarrow>
                    if \<not> (\<exists>x \<in> set (tasks res). task_id x = tid) then Inr (None, w)
                    else
                      (let new_status = (if done then Completed else Ready);
                           res' = res\<lparr>tasks := update_first (\<lambda>x. task_id x = tid)
                                    (\<lambda>t. t\<lparr>completed := Some done, status := new_status\<rparr>)
                                    (tasks res)\<rparr>;
                           activityMsg = ''Task '' @ tid @ '' marked ''
                                    @ (if done then ''completed'' else ''not completed'')
                       in Inr (Some res',
                            w\<lparr>TaskModel := update_first
                                   (\<lambda>d. doc_jobId d = jid \<and> taskId d = tid)
                                   (\<lambda>d. d\<lparr>doc_status := new_status\<rparr>) (TaskModel w),
                              JobModel := update_first (\<lambda>j. jobId j = jid)
                                   (\<lambda>j. j\<lparr>activities := activities j @ [activityMsg]\<rparr>)
                                   (JobModel w)\<rparr>)))))"

section \<open>JobProcessorService\<close>

text \<open>
  \<open>llmService.generateTasks\<close>: \<open>llm\<close> gives, for a transcript, the array the call
  resolves to or the value it rejects with.  Each call is entered in \<open>llm_calls\<close>.
\<close>

definition generateTasks ::
  "(string \<Rightarrow> thrown + json list) \<Rightarrow> string \<Rightarrow> world \<Rightarrow> (thrown + json list) \<times> world" where
  "generateTasks llm txt w = (llm txt, w\<lparr>llm_calls := llm_calls w @ [txt]\<rparr>)"

text \<open>
  The \<open>try\<close> block of \<open>processTranscript\<close>.  \<open>frames\<close> is the room the call stack has
  for nested calls of \<open>dfs\<close> when the block reaches \<open>detectCycles\<close>.  The block ends
  normally (\<open>Inr\<close>) or throws (\<open>Inl\<close>), each with the world as it is at that point; \<open>None\<close>
  is a block that does not return.
\<close>

definition try_block ::
  "nat \<Rightarrow> (string \<Rightarrow> thrown + json list) \<Rightarrow> faults \<Rightarrow> string \<Rightarrow> string \<Rightarrow> world
     \<Rightarrow> ((thrown \<times> world) + world) option" where
  "try_block frames llm F jid txt w =
     (case generateTasks llm txt w of
        (Inl e, w0) \<Rightarrow> Some (Inl (e, w0))
      | (Inr llmOutput, w0) \<Rightarrow>
          (case validateTasks llmOutput of
             Inl e \<Rightarrow> Some (Inl (e, w0))
           | Inr (sanitizedTasks, removed) \<Rightarrow>
               if length sanitizedTasks = 0
               then Some (Inl (JsError ''No valid tasks extracted from transcript'', w0))
               else
                 (case detectCycles frames sanitizedTasks of
                    None \<Rightarrow> None
                  | Some (Inl e) \<Rightarrow> Some (Inl (e, w0))
                  | Some (Inr cycleResult) \<Rightarrow>
                      (let res = build_result sanitizedTasks removed cycleResult
                       in case saveTasks F jid (tasks res) w0 of
                            Inl e \<Rightarrow> Some (Inl (e, w0))
                          | Inr w1 \<Rightarrow>
                              (case completeJob F jid res w1 of
                                 Inl e \<Rightarrow> Some (Inl (e, w1))
                               | Inr w2 \<Rightarrow> Some (Inr w2))))))"

text \<open>\<open>error instanceof Error ? error.message : "Unknown error"\<close>\<close>

fun errorMessage :: "thrown \<Rightarrow> string" where
  "errorMessage (JsError m) = m"
| "errorMessage NonError = ''Unknown error''"

text \<open>
  \<open>processTranscript\<close>: the returned promise resolves (\<open>Inr\<close>) or rejects (\<open>Inl\<close>).
\<close>

definition processTranscript ::
  "nat \<Rightarrow> (string \<Rightarrow> thrown + json list) \<Rightarrow> faults \<Rightarrow> string \<Rightarrow> string \<Rightarrow> world
     \<Rightarrow> ((thrown \<times> world) + world) option" where
  "processTranscript frames llm F jid txt w =
     (case try_block frames llm F jid txt w of
        None \<Rightarrow> None
      | Some (Inr w') \<Rightarrow> Some (Inr w')
      | Some (Inl (e, w')) \<Rightarrow>
          (case failJob F jid (errorMessage e) w' of
             Inl e' \<Rightarrow> Some (Inl (e', w'))
           | Inr w'' \<Rightarrow> Some (Inr w'')))"

text \<open>The world a run of \<open>processTranscript\<close> leaves behind.\<close>

fun world_after :: "(thrown \<times> world) + world \<Rightarrow> world" where
  "world_after (Inl (e, w)) = w"
| "world_after (Inr w) = w"

section \<open>Routes\<close>

text \<open>
  Response bodies: \<open>{ error }\<close>; \<open>{ jobId, status, message? }\<close>, in that order of
  arguments; \<open>{ status: "ok", result }\<close>.
\<close>

datatype response_body =
    ErrorBody string
  | JobBody string string "string option"
  | ResultBody ProcessingResult

record response =
  code :: nat
  body :: response_body

text \<open>
  \<open>POST /submit\<close> up to and including \<open>await dbService.findExistingJob\<close>: it responds,
  or goes on with the trimmed transcript.  \<open>t\<close> is \<open>req.body.transcript\<close>.
\<close>

datatype submit_check = Respond response | Proceed string

definition internal_server_error :: response where
  "internal_server_error = \<lparr>code = 500, body = ErrorBody ''Internal server error''\<rparr>"

definition invalid_input :: response where
  "invalid_input =
     \<lparr>code = 400, body = ErrorBody ''Invalid input: transcript must be a non-empty string''\<rparr>"

definition submit_lookup ::
  "(string \<Rightarrow> string) \<Rightarrow> faults \<Rightarrow> json \<Rightarrow> world \<Rightarrow> submit_check" where
  "submit_lookup H F t w =
     (case t of
        JStr s \<Rightarrow>
          if falsy t \<or> trim s = [] then Respond invalid_input
          else
            (let cleanTranscript = trim s
             in case findExistingJob H F cleanTranscript w of
                  Inl e \<Rightarrow> Respond internal_server_error
                | Inr (Some existingJobId) \<Rightarrow>
                    Respond \<lparr>code = 200,
                      body = JobBody existingJobId ''processing''
                        (Some ''Transcript already submitted, returning existing job ID'')\<rparr>
                | Inr None \<Rightarrow> Proceed cleanTranscript)
      | _ \<Rightarrow> Respond invalid_input)"

text \<open>
  The rest of \<open>POST /submit\<close>, from \<open>await dbService.createJob\<close> on: the response, the
  world, and the background call of \<open>processTranscript\<close> it starts, if any.  \<open>uuid\<close> is
  the value of \<open>uuidv4()\<close>.
\<close>

definition submit_create ::
  "(string \<Rightarrow> string) \<Rightarrow> faults \<Rightarrow> string \<Rightarrow> string \<Rightarrow> world
     \<Rightarrow> response \<times> world \<times> (string \<times> string) option" where
  "submit_create H F uuid cleanTranscript w =
     (case createJob H F uuid cleanTranscript w of
        Inl e \<Rightarrow> (internal_server_error, w, None)
      | Inr w' \<Rightarrow>
          (\<lparr>code = 202, body = JobBody uuid ''processing'' None\<rparr>, w',
           Some (uuid, cleanTranscript)))"

text \<open>One request served without another request in between.\<close>

definition post_submit ::
  "(string \<Rightarrow> string) \<Rightarrow> faults \<Rightarrow> json \<Rightarrow> string \<Rightarrow> world
     \<Rightarrow> response \<times> world \<times> (string \<times> string) option" where
  "post_submit H F t uuid w =
     (case submit_lookup H F t w of
        Respond r \<Rightarrow> (r, w, None)
      | Proceed cleanTranscript \<Rightarrow> submit_create H F uuid cleanTranscript w)"

text \<open>
  \<open>PATCH /status/:jobId/task/:taskId\<close>; \<open>c\<close> is \<open>req.body.completed\<close>.  The socket event
  is not modelled.
\<close>

definition patch_task ::
  "faults \<Rightarrow> string \<Rightarrow> string \<Rightarrow> json \<Rightarrow> world \<Rightarrow> response \<times> world" where
  "patch_task F jid tid c w =
     (if jid = [] \<or> tid = []
      then (\<lparr>code = 400, body = ErrorBody ''Invalid jobId or taskId''\<rparr>, w)
      else case c of
        JBool done \<Rightarrow>
          (case setTaskCompletion F jid tid done w of
             Inl e \<Rightarrow> (internal_server_error, w)
           | Inr (None, w') \<Rightarrow> (\<lparr>code = 404, body = ErrorBody ''Job or task not found''\<rparr>, w')
           | Inr (Some updated, w') \<Rightarrow> (\<lparr>code = 200, body = ResultBody updated\<rparr>, w'))
      | _ \<Rightarrow>
          (\<lparr>code = 400,
            body = ErrorBody (''Body must include boolean '' @ [CHR 0x27] @ ''completed''
                              @ [CHR 0x27])\<rparr>, w))"

section \<open>Notions used to state the properties\<close>

text \<open>The trimmed ids of the records that pass the schema check, in input order.\<close>

definition valid_ids :: "json list \<Rightarrow> string list" where
  "valid_ids records = map task_id (List.map_filter validateTaskSchema records)"

text \<open>A dependency edge: some task with id \<open>u\<close> lists \<open>v\<close> among its dependencies.\<close>

definition is_edge :: "ValidatedTask list \<Rightarrow> string \<Rightarrow> string \<Rightarrow> bool" where
  "is_edge task_list u v =
     (\<exists>t \<in> set task_list. task_id t = u \<and> v \<in> set (dependencies t))"

definition dep_edges :: "ValidatedTask list \<Rightarrow> (string \<times> string) set" where
  "dep_edges task_list = {(u, v). is_edge task_list u v}"

text \<open>The object literal \<open>{ id, description, priority, dependencies }\<close> with string fields.\<close>

definition raw_task :: "string \<Rightarrow> string \<Rightarrow> string \<Rightarrow> string list \<Rightarrow> json" where
  "raw_task i d p deps =
     JObj [(''id'', JStr i), (''description'', JStr d), (''priority'', JStr p),
           (''dependencies'', JArr (map JStr deps))]"

text \<open>A task as the sanitizer hands it on: status pending, no completion flag.\<close>

definition pending_task :: "string \<Rightarrow> string list \<Rightarrow> ValidatedTask" where
  "pending_task i deps =
     \<lparr>task_id = i, description = ''d'', priority = Low, dependencies = deps,
      status = Pending, completed = None\<rparr>"

text \<open>The edges of the adjacency map.\<close>

definition graph_edges :: "graph \<Rightarrow> (string \<times> string) set" where
  "graph_edges g = {(u, v). v \<in> set (neighbors g u)}"

text \<open>Every id that occurs in a task list, as an id or as a dependency.\<close>

definition all_ids :: "ValidatedTask list \<Rightarrow> string set" where
  "all_ids task_list =
     task_id ` set task_list \<union> (\<Union>t \<in> set task_list. set (dependencies t))"

text \<open>
  The order under which every recursive call of \<open>dfs\<close> is smaller: the room on the
  stack, then the size of the call.
\<close>

fun csize :: "dfs_call \<Rightarrow> nat" where
  "csize (Visit n) = 1"
| "csize (Each ns) = 2 * length ns"

definition dfs_order :: "((nat \<times> dfs_call) \<times> (nat \<times> dfs_call)) set" where
  "dfs_order = inv_image (less_than <*lex*> less_than) (\<lambda>x. (fst x, csize (snd x)))"

text \<open>
  The stack has room for the rest of the walk: the path is duplicate-free, it is the set
  \<open>visiting\<close>, every id the walk can reach lies in the finite set \<open>N\<close>, and \<open>N\<close> has fewer
  elements than the path is long plus the calls the stack has room for.
\<close>

definition fits ::
  "string set \<Rightarrow> nat \<Rightarrow> graph \<Rightarrow> dfs_call \<Rightarrow> string list \<Rightarrow> dfs_state \<Rightarrow> bool" where
  "fits N frames g c path st =
     (finite N \<and> (\<forall>u. set (neighbors g u) \<subseteq> N) \<and> distinct path
      \<and> set path = visiting st \<and> set path \<subseteq> N
      \<and> (case c of Visit n \<Rightarrow> n \<in> N | Each ns \<Rightarrow> set ns \<subseteq> N)
      \<and> card N < frames + length path)"

text \<open>
  A chain of \<open>n\<close> tasks: task \<open>k\<close> has the id made of \<open>k + 1\<close> letters and depends on task
  \<open>k - 1\<close>; the task that everything else hangs on comes last.
\<close>

definition chain_id :: "nat \<Rightarrow> string" where
  "chain_id k = replicate (Suc k) (CHR ''t'')"

definition chain_task :: "nat \<Rightarrow> ValidatedTask" where
  "chain_task k = pending_task (chain_id k) (if k = 0 then [] else [chain_id (k - 1)])"

definition chain :: "nat \<Rightarrow> ValidatedTask list" where
  "chain n = map chain_task (rev [0..<n])"

text \<open>
  The path is a walk in the graph, and the node or nodes about to be visited are
  neighbours of its last element.
\<close>

definition edge_ok :: "graph \<Rightarrow> string list \<Rightarrow> dfs_call \<Rightarrow> bool" where
  "edge_ok g path c =
     (successively (\<lambda>u v. v \<in> set (neighbors g u)) path \<and>
      (case c of
         Visit n \<Rightarrow> path \<noteq> [] \<longrightarrow> n \<in> set (neighbors g (last path))
       | Each ns \<Rightarrow> path \<noteq> [] \<and> set ns \<subseteq> set (neighbors g (last path))))"

text \<open>Every cycle recorded so far is a closed walk whose ids are all flagged.\<close>

definition cycles_ok :: "graph \<Rightarrow> dfs_state \<Rightarrow> bool" where
  "cycles_ok g st =
     (\<forall>cy \<in> set (st_cycles st).
        2 \<le> length cy \<and> hd cy = last cy
        \<and> successively (\<lambda>u v. v \<in> set (neighbors g u)) cy
        \<and> set cy \<subseteq> set (st_errorTaskIds st))"

text \<open>The pairs of job id and content hash in the job collection, in order.\<close>

definition job_keys :: "world \<Rightarrow> (string \<times> string) list" where
  "job_keys w = map (\<lambda>j. (jobId j, transcriptHash j)) (JobModel w)"

text \<open>A store in which no operation rejects, and one in which every operation does.\<close>

definition no_faults :: faults where
  "no_faults = (\<lambda>op. None)"

definition store_down :: faults where
  "store_down = (\<lambda>op. Some (JsError ''connection lost''))"

definition empty_world :: world where
  "empty_world = \<lparr>JobModel = [], TaskModel = [], llm_calls = []\<rparr>"

text \<open>
  What one processed job leaves behind: task \<open>a\<close> has no dependency and is ready, task
  \<open>x\<close> depends on itself and is in error.
\<close>

definition done_result :: ProcessingResult where
  "done_result =
     \<lparr>tasks = [(pending_task ''a'' [])\<lparr>status := Ready\<rparr>,
               (pending_task ''x'' [''x''])\<lparr>status := Error\<rparr>],
      circularDependencies = [[''x'', ''x'']],
      sanitizationReport = \<lparr>invalidDependenciesRemoved = 0, tasksMarkedAsError = 1\<rparr>\<rparr>"

definition done_world :: world where
  "done_world =
     \<lparr>JobModel = [(new_job ''j1'' ''hello'' ''h1'')
                    \<lparr>job_status := JDone, result := Some done_result\<rparr>],
      TaskModel = map (task_doc ''j1'') (tasks done_result),
      llm_calls = [''hello'']\<rparr>"

section \<open>Sanitizer: no dangling reference, or a duplicate-id error\<close>

lemma valid_ids_snoc:
  "valid_ids (rs @ [r]) =
     valid_ids rs @ (case validateTaskSchema r of None \<Rightarrow> [] | Some t \<Rightarrow> [task_id t])"
  by (simp add: valid_ids_def List.map_filter_def split: option.splits)

text \<open>
  What the first pass has computed after any prefix of the input: the id set mirrors
  the kept tasks, and an id is reported as duplicate exactly when two or more
  schema-valid records bear it.
\<close>

lemma first_pass_inv:
  "fold first_pass_step rs ([], [], []) = (v, ids, dups) \<Longrightarrow>
     ids = map task_id v \<and> distinct ids \<and> set ids = set (valid_ids rs) \<and>
     set dups = {d. 2 \<le> count_list (valid_ids rs) d}"
proof (induction rs arbitrary: v ids dups rule: rev_induct)
  case Nil
  then show ?case by (simp add: valid_ids_def List.map_filter_def)
next
  case (snoc r rs)
  obtain v0 ids0 dups0 where f: "fold first_pass_step rs ([], [], []) = (v0, ids0, dups0)"
    by (metis prod_cases3)
  from snoc.IH[OF f] have i1: "ids0 = map task_id v0" and i2: "distinct ids0"
    and i3: "set ids0 = set (valid_ids rs)"
    and i4: "set dups0 = {d. 2 \<le> count_list (valid_ids rs) d}"
    by blast+
  have step: "first_pass_step r (v0, ids0, dups0) = (v, ids, dups)"
    using snoc.prems f by simp
  show ?case
  proof (cases "validateTaskSchema r")
    case None
    with step have "v = v0" "ids = ids0" "dups = dups0"
      by (auto simp: first_pass_step_def)
    then show ?thesis using i1 i2 i3 i4 None by (simp add: valid_ids_snoc)
  next
    case (Some t)
    show ?thesis
    proof (cases "task_id t \<in> set ids0")
      case True
      then have c: "1 \<le> count_list (valid_ids rs) (task_id t)"
        using i3 count_list_0_iff[of "valid_ids rs" "task_id t"] by auto
      from True Some step have e: "v = v0" "ids = ids0" "dups = dups0 @ [task_id t]"
        by (auto simp: first_pass_step_def)
      have "set dups = {d. 2 \<le> count_list (valid_ids (rs @ [r])) d}"
        using e i4 c Some by (auto simp: valid_ids_snoc)
      moreover have "set ids = set (valid_ids (rs @ [r]))"
        using e i3 True Some by (auto simp: valid_ids_snoc)
      ultimately show ?thesis using e i1 i2 by simp
    next
      case False
      then have c: "count_list (valid_ids rs) (task_id t) = 0"
        using i3 by (simp add: count_list_0_iff)
      from False Some step have e: "v = v0 @ [t]" "ids = ids0 @ [task_id t]" "dups = dups0"
        by (auto simp: first_pass_step_def set_add_def)
      have "set dups = {d. 2 \<le> count_list (valid_ids (rs @ [r])) d}"
        using e i4 c Some by (auto simp: valid_ids_snoc)
      moreover have "set ids = set (valid_ids (rs @ [r]))"
        using e i3 Some by (auto simp: valid_ids_snoc)
      ultimately show ?thesis using e i1 i2 False by simp
    qed
  qed
qed

lemma first_pass_pending:
  "fold first_pass_step rs (v0, ids0, dups0) = (v, ids, dups) \<Longrightarrow>
     \<forall>t \<in> set v0. status t = Pending \<and> completed t = None \<Longrightarrow>
     \<forall>t \<in> set v. status t = Pending \<and> completed t = None"
proof (induction rs arbitrary: v0 ids0 dups0)
  case Nil
  then show ?case by simp
next
  case (Cons r rs)
  obtain v1 ids1 dups1 where s: "first_pass_step r (v0, ids0, dups0) = (v1, ids1, dups1)"
    by (metis prod_cases3)
  have "\<forall>t \<in> set v1. status t = Pending \<and> completed t = None"
    using s Cons.prems(2)
    by (auto simp: first_pass_step_def validateTaskSchema_def
             split: option.splits if_splits json.splits)
  moreover have "fold first_pass_step rs (v1, ids1, dups1) = (v, ids, dups)"
    using Cons.prems(1) s by simp
  ultimately show ?case using Cons.IH by blast
qed

lemma sublist_prepend: "sublist x ys \<Longrightarrow> sublist x (zs @ ys)"
  unfolding sublist_def by (metis append.assoc)

lemma sublist_join: "x \<in> set xs \<Longrightarrow> sublist x (join sep xs)"
proof (induction sep xs rule: join.induct)
  case (1 sep)
  then show ?case by simp
next
  case (2 sep y)
  then show ?case by simp
next
  case (3 sep y z zs)
  show ?case
  proof (cases "x = y")
    case True
    then show ?thesis by (simp add: sublist_append_rightI)
  next
    case False
    with 3 have "sublist x (join sep (z # zs))" by simp
    then have "sublist x ((y @ sep) @ join sep (z # zs))" by (rule sublist_prepend)
    then show ?thesis by simp
  qed
qed

lemma set_fold_set_add: "set (fold set_add xs acc) = set xs \<union> set acc"
  by (induction xs arbitrary: acc) (auto simp: set_add_def)

lemma distinct_fold_set_add: "distinct acc \<Longrightarrow> distinct (fold set_add xs acc)"
  by (induction xs arbitrary: acc) (auto simp: set_add_def)

lemma task_id_sanitize: "task_id (sanitize_task ids t) = task_id t"
  by (simp add: sanitize_task_def)

text \<open>What a successful \<open>validateTasks\<close> returns: the facts the later stages rely on.\<close>

lemma validateTasks_Inr:
  assumes "validateTasks records = Inr (san, n)"
  shows "distinct (map task_id san)"
    and "\<forall>t \<in> set san. set (dependencies t) \<subseteq> task_id ` set san"
    and "\<forall>t \<in> set san. status t = Pending \<and> completed t = None"
proof -
  obtain v ids dups where f: "fold first_pass_step records ([], [], []) = (v, ids, dups)"
    by (metis prod_cases3)
  from first_pass_inv[OF f] have i1: "ids = map task_id v" and i2: "distinct ids"
    by blast+
  from assms f have san: "san = map (sanitize_task ids) v"
    by (auto simp: validateTasks_def split: if_splits)
  have ids: "map task_id san = ids"
    using san i1 by (simp add: task_id_sanitize comp_def)
  show "distinct (map task_id san)" using ids i2 by simp
  have "set ids = task_id ` set san" using ids by (metis set_map)
  then show "\<forall>t \<in> set san. set (dependencies t) \<subseteq> task_id ` set san"
    using san by (auto simp: sanitize_task_def)
  have "\<forall>t \<in> set v. status t = Pending \<and> completed t = None"
    using first_pass_pending[OF f] by simp
  then show "\<forall>t \<in> set san. status t = Pending \<and> completed t = None"
    using san by (auto simp: sanitize_task_def)
qed

text \<open>
  Claim C1.  For every input sequence of untyped records, \<open>validateTasks\<close> either returns
  tasks in which every dependency entry is the id of a returned task, or throws an
  \<open>Error\<close> whose message is the fixed prefix followed by the colliding ids, each once,
  joined by a comma and a space; the colliding ids are exactly the ids borne by two or
  more schema-valid records.  It throws nothing else.  Whenever two schema-valid records
  share a trimmed id, the call fails and the message contains that id.
\<close>

theorem validateTasks_no_dangling_or_duplicate_error:
  "(case validateTasks records of
      Inr (validated, n) \<Rightarrow>
        (\<forall>t \<in> set validated. \<forall>d \<in> set (dependencies t). d \<in> task_id ` set validated)
    | Inl e \<Rightarrow>
        (\<exists>dups. dups \<noteq> [] \<and> distinct dups
           \<and> set dups = {d. 2 \<le> count_list (valid_ids records) d}
           \<and> e = JsError (''Validation failed: duplicate task IDs detected: ''
                            @ join '', '' dups)))
   \<and> (\<forall>d. 2 \<le> count_list (valid_ids records) d \<longrightarrow>
          (\<exists>msg. validateTasks records = Inl (JsError msg) \<and> sublist d msg))"
proof -
  obtain v ids dups where f: "fold first_pass_step records ([], [], []) = (v, ids, dups)"
    by (metis prod_cases3)
  from first_pass_inv[OF f]
  have i4: "set dups = {d. 2 \<le> count_list (valid_ids records) d}"
    by blast
  show ?thesis
  proof (cases "dups = []")
    case True
    then have r: "validateTasks records =
        Inr (map (sanitize_task ids) v, sum_list (map (removed_count ids) v))"
      using f by (simp add: validateTasks_def)
    have "\<forall>t \<in> set (map (sanitize_task ids) v). \<forall>d \<in> set (dependencies t).
            d \<in> task_id ` set (map (sanitize_task ids) v)"
      using validateTasks_Inr(2)[OF r] by blast
    moreover have "\<forall>d. \<not> 2 \<le> count_list (valid_ids records) d"
      using i4 True by auto
    ultimately show ?thesis using r by simp
  next
    case False
    then have r: "validateTasks records = Inl (JsError (duplicate_message dups))"
      using f by (simp add: validateTasks_def)
    let ?u = "array_to_set dups"
    have u: "set ?u = set dups" "distinct ?u"
      by (simp_all add: array_to_set_def set_fold_set_add distinct_fold_set_add)
    have ne: "?u \<noteq> []" using u(1) False by (metis set_empty)
    have sub: "sublist d (duplicate_message dups)"
      if "2 \<le> count_list (valid_ids records) d" for d
      unfolding duplicate_message_def
      by (rule sublist_prepend, rule sublist_join) (use that i4 u(1) in simp)
    have "\<exists>ds. ds \<noteq> [] \<and> distinct ds
           \<and> set ds = {d. 2 \<le> count_list (valid_ids records) d}
           \<and> JsError (duplicate_message dups) =
               JsError (''Validation failed: duplicate task IDs detected: ''
                        @ join '', '' ds)"
      unfolding duplicate_message_def using u ne i4 by blast
    then show ?thesis using r sub by simp
  qed
qed

text \<open>
  The theorem at two inputs: two records whose ids trim to \<open>t1\<close> make the call fail with
  a message that names \<open>t1\<close>; a batch with a ghost dependency comes back without it.
\<close>

theorem validateTasks_no_dangling_or_duplicate_error_witness:
  "2 \<le> count_list (valid_ids [raw_task ''t1'' ''A'' ''low'' [],
                               raw_task '' t1 '' ''B'' ''high'' []]) ''t1''
   \<and> (\<exists>msg. validateTasks [raw_task ''t1'' ''A'' ''low'' [],
                            raw_task '' t1 '' ''B'' ''high'' []] = Inl (JsError msg)
          \<and> sublist ''t1'' msg)
   \<and> (\<exists>validated n.
         validateTasks [raw_task ''a'' ''A'' ''low'' [],
                        raw_task ''b'' ''B'' ''low'' [''a'', ''ghost'']] = Inr (validated, n)
         \<and> map dependencies validated = [[], [''a'']]
         \<and> (\<forall>t \<in> set validated. \<forall>d \<in> set (dependencies t). d \<in> task_id ` set validated))"
proof -
  let ?dup = "[raw_task ''t1'' ''A'' ''low'' [], raw_task '' t1 '' ''B'' ''high'' []]"
  let ?ok = "[raw_task ''a'' ''A'' ''low'' [], raw_task ''b'' ''B'' ''low'' [''a'', ''ghost'']]"
  have h: "2 \<le> count_list (valid_ids ?dup) ''t1''"
    by code_simp
  have e: "validateTasks ?ok =
      Inr ([\<lparr>task_id = ''a'', description = ''A'', priority = Low, dependencies = [],
             status = Pending, completed = None\<rparr>,
            \<lparr>task_id = ''b'', description = ''B'', priority = Low, dependencies = [''a''],
             status = Pending, completed = None\<rparr>], 1)"
    by code_simp
  from validateTasks_no_dangling_or_duplicate_error[of ?dup] h
  have "\<exists>msg. validateTasks ?dup = Inl (JsError msg) \<and> sublist ''t1'' msg"
    by blast
  moreover from validateTasks_no_dangling_or_duplicate_error[of ?ok] e
  have "\<exists>validated n. validateTasks ?ok = Inr (validated, n)
          \<and> map dependencies validated = [[], [''a'']]
          \<and> (\<forall>t \<in> set validated. \<forall>d \<in> set (dependencies t). d \<in> task_id ` set validated)"
    by simp
  ultimately show ?thesis using h by blast
qed

text \<open>
  Claim C10.  \<open>validateTasks\<close> trims \<open>id\<close> and \<open>description\<close> but keeps dependency entries
  as they are: the entry \<open>" a "\<close> of task \<open>b\<close> is not the id \<open>a\<close>, so the second pass
  removes it and counts it, although task \<open>a\<close> is in the returned sequence.
\<close>

theorem validateTasks_untrimmed_dependency_removed:
  "validateTasks [raw_task '' a '' '' first '' ''low'' [],
                  raw_task ''b'' ''second'' ''high'' ['' a '']] =
     Inr ([\<lparr>task_id = ''a'', description = ''first'', priority = Low, dependencies = [],
            status = Pending, completed = None\<rparr>,
           \<lparr>task_id = ''b'', description = ''second'', priority = High, dependencies = [],
            status = Pending, completed = None\<rparr>], 1)"
  by code_simp

section \<open>Cycle detector: termination and the room on the stack\<close>

lemma record_cycle_frame:
  "visiting (record_cycle n p st) = visiting st \<and> visited (record_cycle n p st) = visited st"
  by (simp add: record_cycle_def Let_def)

lemma wf_dfs_order: "wf dfs_order"
  unfolding dfs_order_def by (intro wf_inv_image wf_lex_prod wf_less_than)

lemma dfs_order_iff:
  "((f', c'), (f, c)) \<in> dfs_order \<longleftrightarrow> f' < f \<or> (f' = f \<and> csize c' < csize c)"
  by (simp add: dfs_order_def)

lemma fits_frames_pos:
  assumes "fits N frames g c path st"
  shows "0 < frames"
proof -
  from assms have f: "finite N" and d: "distinct path" and s: "set path \<subseteq> N"
    and c: "card N < frames + length path"
    by (auto simp: fits_def)
  have "length path = card (set path)" using d by (simp add: distinct_card)
  also have "\<dots> \<le> card N" using f s by (rule card_mono)
  finally show ?thesis using c by simp
qed

lemma fits_enter:
  assumes "fits N (Suc below) g (Visit n) path st" and "n \<notin> visiting st"
  shows "fits N below g (Each (neighbors g n)) (path @ [n])
           (st\<lparr>visiting := insert n (visiting st)\<rparr>)"
  using assms by (auto simp: fits_def)

lemma fits_first:
  "fits N frames g (Each (x # xs)) path st \<Longrightarrow> fits N frames g (Visit x) path st"
  by (auto simp: fits_def)

lemma fits_rest:
  "fits N frames g (Each (x # xs)) path st \<Longrightarrow> visiting st1 = visiting st \<Longrightarrow>
     fits N frames g (Each xs) path st1"
  by (auto simp: fits_def)

text \<open>
  Every call of \<open>dfs\<close> returns; a call that returns a state leaves \<open>visiting\<close> as it
  was; and a call for which the stack has room returns a state.
\<close>

lemma dfs_returns_pair:
  "\<exists>r. dfs (fst x) g (snd x) path st = Some r
      \<and> (\<forall>st'. r = Inr st' \<longrightarrow> visiting st' = visiting st)
      \<and> (fits N (fst x) g (snd x) path st \<longrightarrow> (\<exists>st'. r = Inr st'))"
  using wf_dfs_order
proof (induction x arbitrary: path st rule: wf_induct_rule)
  case (less x)
  obtain frames c where x: "x = (frames, c)" by (cases x)
  have IH: "\<exists>r. dfs f' g c' path' st' = Some r
      \<and> (\<forall>s. r = Inr s \<longrightarrow> visiting s = visiting st')
      \<and> (fits N f' g c' path' st' \<longrightarrow> (\<exists>s. r = Inr s))"
    if "((f', c'), (frames, c)) \<in> dfs_order" for f' c' path' st'
    using less[of "(f', c')" path' st'] that x by simp
  have "\<exists>r. dfs frames g c path st = Some r
      \<and> (\<forall>st'. r = Inr st' \<longrightarrow> visiting st' = visiting st)
      \<and> (fits N frames g c path st \<longrightarrow> (\<exists>st'. r = Inr st'))"
  proof (cases c)
    case (Visit n)
    show ?thesis
    proof (cases frames)
      case 0
      then have "dfs frames g c path st = Some (Inl range_error)"
        using Visit by (subst dfs.simps) simp
      moreover have "\<not> fits N frames g c path st"
        using fits_frames_pos[of N frames g c path st] 0 by auto
      ultimately show ?thesis by simp
    next
      case (Suc below)
      show ?thesis
      proof (cases "n \<in> visiting st")
        case True
        then have "dfs frames g c path st = Some (Inr (record_cycle n path st))"
          using Visit Suc by (subst dfs.simps) simp
        then show ?thesis by (simp add: record_cycle_frame)
      next
        case nv: False
        show ?thesis
        proof (cases "n \<in> visited st")
          case True
          then have "dfs frames g c path st = Some (Inr st)"
            using Visit Suc nv by (subst dfs.simps) simp
          then show ?thesis by simp
        next
          case False
          let ?st1 = "st\<lparr>visiting := insert n (visiting st)\<rparr>"
          have "((below, Each (neighbors g n)), (frames, c)) \<in> dfs_order"
            using Suc by (simp add: dfs_order_iff)
          from IH[OF this, of "path @ [n]" ?st1] obtain r1 where
            d: "dfs below g (Each (neighbors g n)) (path @ [n]) ?st1 = Some r1"
            and v: "\<forall>s. r1 = Inr s \<longrightarrow> visiting s = visiting ?st1"
            and f: "fits N below g (Each (neighbors g n)) (path @ [n]) ?st1
                      \<longrightarrow> (\<exists>s. r1 = Inr s)"
            by blast
          show ?thesis
          proof (cases r1)
            case (Inl e)
            then have "dfs frames g c path st = Some (Inl e)"
              using Visit Suc nv False d by (subst dfs.simps) simp
            moreover have "\<not> fits N frames g c path st"
              using f Inl fits_enter[of N below g n path st] nv Visit Suc by auto
            ultimately show ?thesis by simp
          next
            case (Inr st2)
            then have "dfs frames g c path st =
                Some (Inr (st2\<lparr>visiting := visiting st2 - {n},
                               visited := insert n (visited st2)\<rparr>))"
              using Visit Suc nv False d by (subst dfs.simps) simp
            then show ?thesis using v Inr nv by auto
          qed
        qed
      qed
    qed
  next
    case (Each ns)
    show ?thesis
    proof (cases ns)
      case Nil
      then have "dfs frames g c path st = Some (Inr st)"
        using Each by (subst dfs.simps) simp
      then show ?thesis by simp
    next
      case (Cons y ys)
      have "((frames, Visit y), (frames, c)) \<in> dfs_order"
        using Each Cons by (simp add: dfs_order_iff)
      from IH[OF this, of path st] obtain r1 where
        d1: "dfs frames g (Visit y) path st = Some r1"
        and v1: "\<forall>s. r1 = Inr s \<longrightarrow> visiting s = visiting st"
        and f1: "fits N frames g (Visit y) path st \<longrightarrow> (\<exists>s. r1 = Inr s)"
        by blast
      show ?thesis
      proof (cases r1)
        case (Inl e)
        then have "dfs frames g c path st = Some (Inl e)"
          using Each Cons d1 by (subst dfs.simps) simp
        moreover have "\<not> fits N frames g c path st"
          using f1 Inl fits_first[of N frames g y ys path st] Each Cons by auto
        ultimately show ?thesis by simp
      next
        case (Inr st1)
        then have vs: "visiting st1 = visiting st" using v1 by simp
        have "((frames, Each ys), (frames, c)) \<in> dfs_order"
          using Each Cons by (simp add: dfs_order_iff)
        from IH[OF this, of path st1] obtain r2 where
          d2: "dfs frames g (Each ys) path st1 = Some r2"
          and v2: "\<forall>s. r2 = Inr s \<longrightarrow> visiting s = visiting st1"
          and f2: "fits N frames g (Each ys) path st1 \<longrightarrow> (\<exists>s. r2 = Inr s)"
          by blast
        have "dfs frames g c path st = Some r2"
          using Each Cons d1 d2 Inr by (subst dfs.simps) simp
        moreover have "fits N frames g (Each ys) path st1" if "fits N frames g c path st"
          using that fits_rest[of N frames g y ys path st st1] vs Each Cons by simp
        ultimately show ?thesis using v2 vs f2 by auto
      qed
    qed
  qed
  then show ?case using x by simp
qed

lemma dfs_returns: "\<exists>r. dfs frames g c path st = Some r"
  using dfs_returns_pair[of "(frames, c)" g path st "{}"] by auto

lemma dfs_visiting:
  "dfs frames g c path st = Some (Inr st') \<Longrightarrow> visiting st' = visiting st"
  using dfs_returns_pair[of "(frames, c)" g path st "{}"] by auto

lemma dfs_fits:
  "fits N frames g c path st \<Longrightarrow> \<exists>st'. dfs frames g c path st = Some (Inr st')"
  using dfs_returns_pair[of "(frames, c)" g path st N] by auto

text \<open>The only value \<open>dfs\<close> throws is the stack overflow.\<close>

lemma dfs_throws:
  assumes "dfs frames g c path st = Some r"
  shows "r = Inl e \<Longrightarrow> e = range_error"
  using assms
proof (induction frames g c path st r arbitrary: e
    rule: dfs.raw_induct[rotated 1, consumes 1, case_names step])
  case (step dfs' frames g c path st r)
  note 1 = step
  show ?case
  proof (cases c)
    case (Visit n)
    show ?thesis
    proof (cases frames)
      case 0
      then show ?thesis using 1(2,3) Visit by simp
    next
      case (Suc below)
      show ?thesis
      proof (cases "n \<in> visiting st \<or> n \<in> visited st")
        case True
        then show ?thesis using 1(2,3) Visit Suc by (auto split: if_splits)
      next
        case False
        let ?st1 = "st\<lparr>visiting := insert n (visiting st)\<rparr>"
        from 1(2,3) Visit Suc False
        have "dfs' below g (Each (neighbors g n)) (path @ [n]) ?st1 = Some (Inl e)"
          by (auto split: bind_splits sum.splits)
        then show ?thesis using 1(1) by blast
      qed
    qed
  next
    case (Each ns)
    show ?thesis
    proof (cases ns)
      case Nil
      then show ?thesis using 1(2,3) Each by simp
    next
      case (Cons x xs)
      from 1(2,3) Each Cons
      have "dfs' frames g (Visit x) path st = Some (Inl e)
          \<or> (\<exists>st1. dfs' frames g (Each xs) path st1 = Some (Inl e))"
        by (auto split: bind_splits sum.splits)
      then show ?thesis using 1(1) by blast
    qed
  qed
qed

section \<open>Cycle detector: what a recorded cycle is\<close>

lemma set_set_add: "set (set_add x s) = insert x (set s)"
  by (auto simp: set_add_def)

lemma record_cycle_ok:
  assumes e: "edge_ok g path (Visit n)" and c: "cycles_ok g st"
  shows "cycles_ok g (record_cycle n path st)"
proof (cases "n \<in> set path")
  case False
  then show ?thesis using c by (simp add: record_cycle_def)
next
  case True
  let ?E = "\<lambda>u v. v \<in> set (neighbors g u)"
  let ?s = "dropWhile (\<lambda>x. x \<noteq> n) path"
  let ?cy = "?s @ [n]"
  have ne: "path \<noteq> []" using True by auto
  have sne: "?s \<noteq> []" using True by (simp add: dropWhile_eq_Nil_conv)
  have hd: "hd ?s = n" using hd_dropWhile[OF sne] by simp
  have split: "path = takeWhile (\<lambda>x. x \<noteq> n) path @ ?s" by simp
  have walk: "successively ?E path" and tgt: "?E (last path) n"
    using e ne by (auto simp: edge_ok_def)
  have sw: "successively ?E ?s"
    using walk split successively_append_iff[of ?E "takeWhile (\<lambda>x. x \<noteq> n) path" ?s] by metis
  have last: "last ?s = last path"
    using split sne by (metis last_appendR)
  have cw: "successively ?E ?cy"
    using sw tgt last sne by (simp add: successively_append_iff)
  have props: "2 \<le> length ?cy" "hd ?cy = last ?cy"
    using sne hd by (cases ?s; simp)+
  have st': "record_cycle n path st =
      st\<lparr>st_cycles := st_cycles st @ [?cy],
         st_errorTaskIds := fold set_add ?cy (st_errorTaskIds st)\<rparr>"
    using True by (simp add: record_cycle_def Let_def)
  show ?thesis
    unfolding st' cycles_ok_def
    using c cw props by (auto simp: cycles_ok_def set_fold_set_add set_set_add)
qed

lemma dfs_cycles_ok:
  assumes "dfs frames g c path st = Some r"
  shows "edge_ok g path c \<Longrightarrow> cycles_ok g st \<Longrightarrow> r = Inr y \<Longrightarrow> cycles_ok g y"
  using assms
proof (induction frames g c path st r arbitrary: y
    rule: dfs.raw_induct[rotated 1, consumes 1, case_names step])
  case (step dfs' frames g c path st r)
  note 1 = step
  show ?case
  proof (cases c)
    case (Visit n)
    show ?thesis
    proof (cases frames)
      case 0
      then show ?thesis using 1(2,5) Visit by simp
    next
      case (Suc below)
      show ?thesis
      proof (cases "n \<in> visiting st")
        case True
        then have "y = record_cycle n path st" using 1(2,5) Visit Suc by simp
        then show ?thesis using record_cycle_ok 1(3,4) Visit by simp
      next
        case nv: False
        show ?thesis
        proof (cases "n \<in> visited st")
          case True
          then show ?thesis using 1(2,4,5) Visit Suc nv by simp
        next
          case False
          let ?st1 = "st\<lparr>visiting := insert n (visiting st)\<rparr>"
          from 1(2,5) Visit Suc nv False obtain st2 where
            d: "dfs' below g (Each (neighbors g n)) (path @ [n]) ?st1 = Some (Inr st2)"
            and y: "y = st2\<lparr>visiting := visiting st2 - {n}, visited := insert n (visited st2)\<rparr>"
            by (auto split: bind_splits sum.splits)
          have "edge_ok g (path @ [n]) (Each (neighbors g n))"
            using 1(3) Visit by (auto simp: edge_ok_def successively_append_iff)
          moreover have "cycles_ok g ?st1" using 1(4) by (simp add: cycles_ok_def)
          ultimately have "cycles_ok g st2" using 1(1) d by blast
          then show ?thesis using y by (simp add: cycles_ok_def)
        qed
      qed
    qed
  next
    case (Each ns)
    show ?thesis
    proof (cases ns)
      case Nil
      then show ?thesis using 1(2,4,5) Each by simp
    next
      case (Cons x xs)
      from 1(2,5) Each Cons obtain st1 where
        d1: "dfs' frames g (Visit x) path st = Some (Inr st1)"
        and d2: "dfs' frames g (Each xs) path st1 = Some (Inr y)"
        by (auto split: bind_splits sum.splits)
      have e1: "edge_ok g path (Visit x)" and e2: "edge_ok g path (Each xs)"
        using 1(3) Each Cons by (auto simp: edge_ok_def)
      have "cycles_ok g st1" using 1(1) d1 e1 1(4) by blast
      then show ?thesis using 1(1) d2 e2 by blast
    qed
  qed
qed

lemma walk_reach:
  "successively (\<lambda>u v. (u, v) \<in> r) path \<Longrightarrow> n \<in> set path \<Longrightarrow> (n, last path) \<in> r\<^sup>*"
proof (induction path arbitrary: n)
  case Nil
  then show ?case by simp
next
  case (Cons x xs)
  show ?case
  proof (cases xs)
    case Nil
    then show ?thesis using Cons.prems by simp
  next
    case (Cons y ys)
    have w: "successively (\<lambda>u v. (u, v) \<in> r) xs" and e: "(x, y) \<in> r"
      using Cons.prems(1) Cons by (auto simp: successively_Cons)
    have r: "(m, last xs) \<in> r\<^sup>*" if "m \<in> set xs" for m
      using Cons.IH[OF w that] .
    have l: "last (x # xs) = last xs" using Cons by simp
    show ?thesis
    proof (cases "n \<in> set xs")
      case True
      then show ?thesis using r l by simp
    next
      case False
      then have "n = x" using Cons.prems(2) by simp
      moreover have "(y, last xs) \<in> r\<^sup>*" using r Cons by simp
      ultimately show ?thesis using e l by (metis converse_rtrancl_into_rtrancl)
    qed
  qed
qed

lemma dfs_acyclic:
  assumes "dfs frames g c path st = Some r"
  shows "acyclic (graph_edges g) \<Longrightarrow> edge_ok g path c \<Longrightarrow> visiting st = set path \<Longrightarrow>
         r = Inr y \<Longrightarrow>
         st_cycles y = st_cycles st \<and> st_errorTaskIds y = st_errorTaskIds st
         \<and> visiting y = visiting st"
  using assms
proof (induction frames g c path st r arbitrary: y
    rule: dfs.raw_induct[rotated 1, consumes 1, case_names step])
  case (step dfs' frames g c path st r)
  note 1 = step
  note ac = 1(3) and eo = 1(4) and vp = 1(5) and ry = 1(6)
  show ?case
  proof (cases c)
    case (Visit n)
    show ?thesis
    proof (cases frames)
      case 0
      then show ?thesis using 1(2) ry Visit by simp
    next
      case (Suc below)
      show ?thesis
      proof (cases "n \<in> visiting st")
        case True
        then have np: "n \<in> set path" using vp by simp
        then have ne: "path \<noteq> []" by auto
        have "successively (\<lambda>u v. (u, v) \<in> graph_edges g) path"
          using eo by (simp add: edge_ok_def graph_edges_def)
        from walk_reach[OF this np] have "(n, last path) \<in> (graph_edges g)\<^sup>*" .
        moreover have "(last path, n) \<in> graph_edges g"
          using eo Visit ne by (simp add: edge_ok_def graph_edges_def)
        ultimately have "(n, n) \<in> (graph_edges g)\<^sup>+" by (rule rtrancl_into_trancl1)
        then show ?thesis using ac by (simp add: acyclic_def)
      next
        case nv: False
        show ?thesis
        proof (cases "n \<in> visited st")
          case True
          then show ?thesis using 1(2) ry Visit Suc nv by simp
        next
          case False
          let ?st1 = "st\<lparr>visiting := insert n (visiting st)\<rparr>"
          from 1(2) ry Visit Suc nv False obtain st2 where
            d: "dfs' below g (Each (neighbors g n)) (path @ [n]) ?st1 = Some (Inr st2)"
            and y: "y = st2\<lparr>visiting := visiting st2 - {n}, visited := insert n (visited st2)\<rparr>"
            by (auto split: bind_splits sum.splits)
          have "edge_ok g (path @ [n]) (Each (neighbors g n))"
            using eo Visit by (auto simp: edge_ok_def successively_append_iff)
          moreover have "visiting ?st1 = set (path @ [n])" using vp by simp
          ultimately have "st_cycles st2 = st_cycles ?st1
              \<and> st_errorTaskIds st2 = st_errorTaskIds ?st1 \<and> visiting st2 = visiting ?st1"
            using 1(1) d ac by blast
          then show ?thesis using y nv by auto
        qed
      qed
    qed
  next
    case (Each ns)
    show ?thesis
    proof (cases ns)
      case Nil
      then show ?thesis using 1(2) ry Each by simp
    next
      case (Cons x xs)
      from 1(2) ry Each Cons obtain st1 where
        d1: "dfs' frames g (Visit x) path st = Some (Inr st1)"
        and d2: "dfs' frames g (Each xs) path st1 = Some (Inr y)"
        by (auto split: bind_splits sum.splits)
      have e1: "edge_ok g path (Visit x)" and e2: "edge_ok g path (Each xs)"
        using eo Each Cons by (auto simp: edge_ok_def)
      from 1(1) d1 ac e1 vp have s1: "st_cycles st1 = st_cycles st"
        "st_errorTaskIds st1 = st_errorTaskIds st" "visiting st1 = visiting st" by blast+
      have "visiting st1 = set path" using s1 vp by simp
      with 1(1) d2 ac e2 have "st_cycles y = st_cycles st1
          \<and> st_errorTaskIds y = st_errorTaskIds st1 \<and> visiting y = visiting st1" by blast
      then show ?thesis using s1 by simp
    qed
  qed
qed

section \<open>Cycle detector: the adjacency map\<close>

lemma map_of_graph_set: "map_of (graph_set k v g) = (map_of g)(k \<mapsto> v)"
  by (induction g) (auto simp: fun_eq_iff)

lemma neighbors_add_dep:
  assumes "map_of g k \<noteq> None"
  shows "set (neighbors (add_dep k d g) u) = set (neighbors g u) \<union> (if u = k then {d} else {})"
    and "map_of (add_dep k d g) k \<noteq> None"
  using assms by (auto simp: add_dep_def neighbors_def map_of_graph_set split: option.splits)

lemma neighbors_fold_add_dep:
  "map_of g k \<noteq> None \<Longrightarrow>
     set (neighbors (fold (add_dep k) ds g) u) = set (neighbors g u) \<union> (if u = k then set ds else {})
     \<and> map_of (fold (add_dep k) ds g) k \<noteq> None"
proof (induction ds arbitrary: g)
  case Nil
  then show ?case by simp
next
  case (Cons d ds)
  have a: "set (neighbors (add_dep k d g) u) = set (neighbors g u) \<union> (if u = k then {d} else {})"
    using Cons.prems by (rule neighbors_add_dep(1))
  have b: "map_of (add_dep k d g) k \<noteq> None"
    using Cons.prems by (rule neighbors_add_dep(2))
  from Cons.IH[OF b] a show ?case by auto
qed

lemma neighbors_add_task:
  "set (neighbors (add_task t g) u) =
     set (neighbors g u) \<union> (if u = task_id t then set (dependencies t) else {})"
proof -
  let ?g0 = "if map_of g (task_id t) \<noteq> None then g else graph_set (task_id t) [] g"
  have k: "map_of ?g0 (task_id t) \<noteq> None" by (simp add: map_of_graph_set)
  have n: "set (neighbors ?g0 u) = set (neighbors g u)"
    by (auto simp: neighbors_def map_of_graph_set split: option.splits)
  from neighbors_fold_add_dep[OF k, of "dependencies t" u] n show ?thesis
    by (simp add: add_task_def)
qed

lemma neighbors_fold_add_task:
  "set (neighbors (fold add_task ts g) u) = set (neighbors g u) \<union> {v. is_edge ts u v}"
proof (induction ts arbitrary: g)
  case Nil
  then show ?case by (simp add: is_edge_def)
next
  case (Cons t ts)
  show ?case
    using Cons.IH[of "add_task t g"] neighbors_add_task[of t g u]
    by (auto simp: is_edge_def)
qed

lemma neighbors_build_graph: "v \<in> set (neighbors (build_graph ts) u) \<longleftrightarrow> is_edge ts u v"
  using neighbors_fold_add_task[of ts "[]" u] by (simp add: build_graph_def neighbors_def)

lemma graph_edges_build_graph: "graph_edges (build_graph ts) = dep_edges ts"
  by (simp add: graph_edges_def dep_edges_def neighbors_build_graph)

text \<open>The keys of the adjacency map are the task ids, in order of first occurrence.\<close>

lemma keys_graph_set: "map fst (graph_set k v g) = set_add k (map fst g)"
proof (induction g)
  case Nil
  show ?case by (simp add: set_add_def)
next
  case (Cons p g)
  obtain k' v' where p: "p = (k', v')" by (cases p)
  show ?case
  proof (cases "k' = k")
    case True
    then show ?thesis using p by (simp add: set_add_def)
  next
    case False
    then show ?thesis
      using p Cons.IH by (cases "k \<in> set (map fst g)") (simp_all add: set_add_def)
  qed
qed

lemma keys_add_dep: "map fst (add_dep k d g) = map fst g"
proof (cases "map_of g k")
  case None
  then show ?thesis by (simp add: add_dep_def)
next
  case (Some deps)
  then have "(k, deps) \<in> set g" by (rule map_of_SomeD)
  then have "k \<in> set (map fst g)" by force
  then show ?thesis using Some by (simp add: add_dep_def keys_graph_set set_add_def)
qed

lemma keys_fold_add_dep: "map fst (fold (add_dep k) ds g) = map fst g"
  by (induction ds arbitrary: g) (simp_all add: keys_add_dep)

lemma keys_add_task: "map fst (add_task t g) = set_add (task_id t) (map fst g)"
proof (cases "map_of g (task_id t)")
  case None
  then show ?thesis by (simp add: add_task_def keys_fold_add_dep keys_graph_set)
next
  case (Some deps)
  then have "(task_id t, deps) \<in> set g" by (rule map_of_SomeD)
  then have "task_id t \<in> set (map fst g)" by force
  then show ?thesis using Some by (simp add: add_task_def keys_fold_add_dep set_add_def)
qed

lemma keys_fold_add_task:
  "map fst (fold add_task ts g) = fold set_add (map task_id ts) (map fst g)"
  by (induction ts arbitrary: g) (simp_all add: keys_add_task)

lemma keys_build_graph: "map fst (build_graph ts) = fold set_add (map task_id ts) []"
  using keys_fold_add_task[of ts "[]"] by (simp add: build_graph_def)

lemma fold_set_add_prefix: "\<exists>ks. fold set_add xs s = s @ ks"
proof (induction xs arbitrary: s)
  case Nil
  then show ?case by simp
next
  case (Cons x xs)
  from Cons.IH[of "set_add x s"] obtain ks where
    k: "fold set_add xs (set_add x s) = set_add x s @ ks" by blast
  have "\<exists>ms. set_add x s = s @ ms" by (simp add: set_add_def)
  then obtain ms where "set_add x s = s @ ms" ..
  then show ?case using k by simp
qed

lemma finite_all_ids: "finite (all_ids ts)"
  by (simp add: all_ids_def)

lemma neighbors_all_ids: "set (neighbors (build_graph ts) u) \<subseteq> all_ids ts"
  by (auto simp: neighbors_build_graph is_edge_def all_ids_def)

lemma keys_all_ids: "set (map fst (build_graph ts)) \<subseteq> all_ids ts"
  unfolding keys_build_graph by (auto simp: set_fold_set_add all_ids_def)

section \<open>Cycle detector: the loop over the keys and the report\<close>

lemma edge_ok_root: "edge_ok g [] (Visit n)"
  by (simp add: edge_ok_def)

lemma run_roots_returns: "\<exists>r. run_roots frames g ks st = Some r"
proof (induction ks arbitrary: st)
  case Nil
  then show ?case by simp
next
  case (Cons k ks)
  show ?case
  proof (cases "k \<in> visited st")
    case True
    then show ?thesis using Cons.IH[of st] by simp
  next
    case False
    from dfs_returns[of frames g "Visit k" "[]" st] obtain r1 where
      d: "dfs frames g (Visit k) [] st = Some r1" by blast
    show ?thesis
    proof (cases r1)
      case (Inl e)
      then show ?thesis using d False by simp
    next
      case (Inr st1)
      then show ?thesis using d False Cons.IH[of st1] by simp
    qed
  qed
qed

lemma run_roots_fits:
  assumes "finite N" and "\<forall>u. set (neighbors g u) \<subseteq> N" and "card N < frames"
  shows "set ks \<subseteq> N \<Longrightarrow> visiting st = {} \<Longrightarrow>
           \<exists>st'. run_roots frames g ks st = Some (Inr st')"
proof (induction ks arbitrary: st)
  case Nil
  then show ?case by simp
next
  case (Cons k ks)
  show ?case
  proof (cases "k \<in> visited st")
    case True
    then show ?thesis using Cons by simp
  next
    case False
    have "fits N frames g (Visit k) [] st"
      using assms Cons.prems by (simp add: fits_def)
    from dfs_fits[OF this] obtain st1 where
      d: "dfs frames g (Visit k) [] st = Some (Inr st1)" by blast
    from dfs_visiting[OF d] Cons.prems have v: "visiting st1 = {}" by simp
    have s: "set ks \<subseteq> N" using Cons.prems(1) by simp
    from Cons.IH[OF s v] obtain st' where
      "run_roots frames g ks st1 = Some (Inr st')" by blast
    then show ?thesis using d False by simp
  qed
qed

lemma run_roots_throws:
  "run_roots frames g ks st = Some (Inl e) \<Longrightarrow> e = range_error"
proof (induction ks arbitrary: st)
  case Nil
  then show ?case by simp
next
  case (Cons k ks)
  show ?case
  proof (cases "k \<in> visited st")
    case True
    then show ?thesis using Cons by simp
  next
    case False
    from dfs_returns[of frames g "Visit k" "[]" st] obtain r1 where
      d: "dfs frames g (Visit k) [] st = Some r1" by blast
    show ?thesis
    proof (cases r1)
      case (Inl e1)
      then have "e = e1" using d False Cons.prems by simp
      then show ?thesis using dfs_throws[OF d Inl] by simp
    next
      case (Inr st1)
      then have "run_roots frames g ks st1 = Some (Inl e)" using d False Cons.prems by simp
      then show ?thesis by (rule Cons.IH)
    qed
  qed
qed

lemma run_roots_step:
  assumes "run_roots frames g (k # ks) st = Some (Inr st')" and "k \<notin> visited st"
  shows "\<exists>st1. dfs frames g (Visit k) [] st = Some (Inr st1)
           \<and> run_roots frames g ks st1 = Some (Inr st')"
  using assms by (auto split: bind_splits sum.splits)

lemma run_roots_cycles_ok:
  "run_roots frames g ks st = Some (Inr st') \<Longrightarrow> cycles_ok g st \<Longrightarrow> cycles_ok g st'"
proof (induction ks arbitrary: st)
  case Nil
  then show ?case by simp
next
  case (Cons k ks)
  show ?case
  proof (cases "k \<in> visited st")
    case True
    then show ?thesis using Cons by simp
  next
    case False
    from run_roots_step[OF Cons.prems(1) False] obtain st1 where
      d: "dfs frames g (Visit k) [] st = Some (Inr st1)"
      and r: "run_roots frames g ks st1 = Some (Inr st')" by blast
    from dfs_cycles_ok[OF d edge_ok_root Cons.prems(2) refl] have "cycles_ok g st1" .
    from Cons.IH[OF r this] show ?thesis .
  qed
qed

lemma run_roots_acyclic:
  "run_roots frames g ks st = Some (Inr st') \<Longrightarrow> acyclic (graph_edges g) \<Longrightarrow>
     visiting st = {} \<Longrightarrow>
     st_cycles st' = st_cycles st \<and> st_errorTaskIds st' = st_errorTaskIds st"
proof (induction ks arbitrary: st)
  case Nil
  then show ?case by simp
next
  case (Cons k ks)
  show ?case
  proof (cases "k \<in> visited st")
    case True
    then show ?thesis using Cons by simp
  next
    case False
    from run_roots_step[OF Cons.prems(1) False] obtain st1 where
      d: "dfs frames g (Visit k) [] st = Some (Inr st1)"
      and r: "run_roots frames g ks st1 = Some (Inr st')" by blast
    have vp: "visiting st = set []" using Cons.prems(3) by simp
    from dfs_acyclic[OF d Cons.prems(2) edge_ok_root vp refl] Cons.prems(3)
    have s: "st_cycles st1 = st_cycles st" "st_errorTaskIds st1 = st_errorTaskIds st"
      "visiting st1 = {}" by auto
    from Cons.IH[OF r Cons.prems(2) s(3)] s show ?thesis by simp
  qed
qed

lemma detectCycles_Inr:
  "detectCycles frames ts = Some (Inr rep) \<longleftrightarrow>
     (\<exists>st. run_roots frames (build_graph ts) (map fst (build_graph ts)) initial_state
             = Some (Inr st) \<and> rep = report st)"
proof (cases "run_roots frames (build_graph ts) (map fst (build_graph ts)) initial_state")
  case None
  then show ?thesis by (simp add: detectCycles_def Let_def)
next
  case (Some r)
  then show ?thesis by (cases r) (auto simp: detectCycles_def Let_def)
qed

lemma detectCycles_Inl:
  "detectCycles frames ts = Some (Inl e) \<longleftrightarrow>
     run_roots frames (build_graph ts) (map fst (build_graph ts)) initial_state = Some (Inl e)"
proof (cases "run_roots frames (build_graph ts) (map fst (build_graph ts)) initial_state")
  case None
  then show ?thesis by (simp add: detectCycles_def Let_def)
next
  case (Some r)
  then show ?thesis by (cases r) (auto simp: detectCycles_def Let_def)
qed

lemma detectCycles_returns: "\<exists>r. detectCycles frames ts = Some r"
  using run_roots_returns[of frames "build_graph ts" "map fst (build_graph ts)" initial_state]
  by (auto simp: detectCycles_def Let_def)

lemma detectCycles_throws: "detectCycles frames ts = Some (Inl e) \<Longrightarrow> e = range_error"
  unfolding detectCycles_Inl by (rule run_roots_throws)

lemma detectCycles_fits:
  assumes "card (all_ids ts) < frames"
  shows "\<exists>rep. detectCycles frames ts = Some (Inr rep)"
proof -
  let ?g = "build_graph ts"
  have n: "\<forall>u. set (neighbors ?g u) \<subseteq> all_ids ts" using neighbors_all_ids by blast
  have v: "visiting initial_state = {}" by (simp add: initial_state_def)
  from run_roots_fits[OF finite_all_ids n assms keys_all_ids v]
  obtain st where "run_roots frames ?g (map fst ?g) initial_state = Some (Inr st)"
    by blast
  then show ?thesis using detectCycles_Inr by blast
qed

lemma detectCycles_sound:
  assumes "detectCycles frames ts = Some (Inr r)"
  shows "\<forall>c \<in> set (cycles r). 2 \<le> length c \<and> hd c = last c
           \<and> (\<forall>i. Suc i < length c \<longrightarrow> is_edge ts (c ! i) (c ! Suc i))
           \<and> set c \<subseteq> set (errorTaskIds r)"
proof -
  let ?g = "build_graph ts"
  from assms obtain st where
    rr: "run_roots frames ?g (map fst ?g) initial_state = Some (Inr st)"
    and r: "r = report st"
    unfolding detectCycles_Inr by blast
  have "cycles_ok ?g initial_state" by (simp add: cycles_ok_def initial_state_def)
  from run_roots_cycles_ok[OF rr this] have ok: "cycles_ok ?g st" .
  show ?thesis
  proof
    fix c assume "c \<in> set (cycles r)"
    then have c: "c \<in> set (st_cycles st)" using r by (simp add: report_def)
    with ok have p: "2 \<le> length c" "hd c = last c"
      "successively (\<lambda>u v. v \<in> set (neighbors ?g u)) c" "set c \<subseteq> set (st_errorTaskIds st)"
      by (auto simp: cycles_ok_def)
    have "is_edge ts (c ! i) (c ! Suc i)" if "Suc i < length c" for i
      using successively_nth[OF p(3) that] by (simp add: neighbors_build_graph)
    then show "2 \<le> length c \<and> hd c = last c
           \<and> (\<forall>i. Suc i < length c \<longrightarrow> is_edge ts (c ! i) (c ! Suc i))
           \<and> set c \<subseteq> set (errorTaskIds r)"
      using p r by (simp add: report_def)
  qed
qed

lemma detectCycles_acyclic:
  assumes "acyclic (dep_edges ts)" and "detectCycles frames ts = Some (Inr rep)"
  shows "rep = \<lparr>hasCycle = False, cycles = [], errorTaskIds = []\<rparr>"
proof -
  let ?g = "build_graph ts"
  from assms(2) obtain st where
    rr: "run_roots frames ?g (map fst ?g) initial_state = Some (Inr st)"
    and r: "rep = report st"
    unfolding detectCycles_Inr by blast
  have "acyclic (graph_edges ?g)" using assms(1) by (simp add: graph_edges_build_graph)
  from run_roots_acyclic[OF rr this] have "st_cycles st = [] \<and> st_errorTaskIds st = []"
    by (simp add: initial_state_def)
  then show ?thesis using r by (simp add: report_def)
qed

section \<open>Cycle detector: a chain longer than the stack has room for\<close>

lemma chain_id_eq: "chain_id i = chain_id j \<longleftrightarrow> i = j"
proof
  assume "chain_id i = chain_id j"
  then have "length (chain_id i) = length (chain_id j)" by simp
  then show "i = j" by (simp add: chain_id_def)
qed simp

lemma is_edge_chain:
  "is_edge (chain n) u v \<longleftrightarrow> (\<exists>j. Suc j < n \<and> u = chain_id (Suc j) \<and> v = chain_id j)"
proof
  assume "is_edge (chain n) u v"
  then obtain k where k: "k < n" and u: "u = chain_id k"
    and v: "v \<in> set (if k = 0 then [] else [chain_id (k - 1)])"
    by (auto simp: is_edge_def chain_def chain_task_def pending_task_def)
  then obtain j where "k = Suc j" by (cases k) auto
  then show "\<exists>j. Suc j < n \<and> u = chain_id (Suc j) \<and> v = chain_id j"
    using k u v by auto
next
  assume "\<exists>j. Suc j < n \<and> u = chain_id (Suc j) \<and> v = chain_id j"
  then obtain j where j: "Suc j < n" "u = chain_id (Suc j)" "v = chain_id j" by blast
  have "chain_task (Suc j) \<in> set (chain n)" using j(1) by (simp add: chain_def)
  then show "is_edge (chain n) u v"
    unfolding is_edge_def using j
    by (intro bexI[of _ "chain_task (Suc j)"]) (simp_all add: chain_task_def pending_task_def)
qed

lemma acyclic_chain: "acyclic (dep_edges (chain n))"
proof (rule acyclicI_order[where f = length])
  fix u v assume "(u, v) \<in> dep_edges (chain n)"
  then show "length v < length u"
    by (auto simp: dep_edges_def is_edge_chain chain_id_def)
qed

lemma neighbors_chain:
  assumes "Suc j < n"
  shows "\<exists>ns. neighbors (build_graph (chain n)) (chain_id (Suc j)) = chain_id j # ns"
proof -
  let ?l = "neighbors (build_graph (chain n)) (chain_id (Suc j))"
  have s: "set ?l = {chain_id j}"
    using assms by (auto simp: neighbors_build_graph is_edge_chain chain_id_eq)
  then obtain x xs where l: "?l = x # xs" by (cases ?l) auto
  then have "x = chain_id j" using s by auto
  then show ?thesis using l by simp
qed

lemma visit_chain_overflows:
  "\<forall>j<k. \<exists>ns. neighbors g (chain_id (Suc j)) = chain_id j # ns \<Longrightarrow>
   \<forall>j\<le>k. chain_id j \<notin> visiting st \<and> chain_id j \<notin> visited st \<Longrightarrow>
   dfs k g (Visit (chain_id k)) path st = Some (Inl range_error)"
proof (induction k arbitrary: path st)
  case 0
  show ?case by (subst dfs.simps) simp
next
  case (Suc k)
  obtain ns where n: "neighbors g (chain_id (Suc k)) = chain_id k # ns"
    using Suc.prems(1) by auto
  let ?st1 = "st\<lparr>visiting := insert (chain_id (Suc k)) (visiting st)\<rparr>"
  have "dfs k g (Visit (chain_id k)) (path @ [chain_id (Suc k)]) ?st1 = Some (Inl range_error)"
  proof (rule Suc.IH)
    show "\<forall>j<k. \<exists>ns. neighbors g (chain_id (Suc j)) = chain_id j # ns"
      using Suc.prems(1) by simp
    show "\<forall>j\<le>k. chain_id j \<notin> visiting ?st1 \<and> chain_id j \<notin> visited ?st1"
      using Suc.prems(2) by (auto simp: chain_id_eq)
  qed
  then have "dfs k g (Each (chain_id k # ns)) (path @ [chain_id (Suc k)]) ?st1
      = Some (Inl range_error)"
    by (subst dfs.simps) simp
  then show ?case using n Suc.prems(2) by (subst dfs.simps) simp
qed

lemma detectCycles_chain_overflows:
  "detectCycles frames (chain (Suc frames)) = Some (Inl range_error)"
proof -
  let ?g = "build_graph (chain (Suc frames))"
  have c: "chain (Suc frames) = chain_task frames # chain frames"
    by (simp add: chain_def)
  have "map fst ?g = fold set_add (map task_id (chain frames)) [chain_id frames]"
    unfolding keys_build_graph c
    by (simp add: set_add_def chain_task_def pending_task_def)
  with fold_set_add_prefix[of "map task_id (chain frames)" "[chain_id frames]"]
  obtain ks where ks: "map fst ?g = chain_id frames # ks" by auto
  have "dfs frames ?g (Visit (chain_id frames)) [] initial_state = Some (Inl range_error)"
  proof (rule visit_chain_overflows)
    show "\<forall>j<frames. \<exists>ns. neighbors ?g (chain_id (Suc j)) = chain_id j # ns"
      using neighbors_chain[of _ "Suc frames"] by simp
    show "\<forall>j\<le>frames. chain_id j \<notin> visiting initial_state \<and> chain_id j \<notin> visited initial_state"
      by (simp add: initial_state_def)
  qed
  then have "run_roots frames ?g (map fst ?g) initial_state = Some (Inl range_error)"
    unfolding ks by (simp add: initial_state_def)
  then show ?thesis using detectCycles_Inl by blast
qed

section \<open>Cycle detector: the claims\<close>

text \<open>
  Claim C2.  Every run of \<open>detectCycles\<close> ends, and in every report it returns each
  sequence in \<open>cycles\<close> is a closed walk of the dependency graph: it has at least two
  elements, its first and last element are equal, each consecutive pair \<open>(u, v)\<close> is an
  edge (some task with id \<open>u\<close> lists \<open>v\<close> among its dependencies), and every id in it is
  in \<open>errorTaskIds\<close>.  This holds whatever room the stack has.
\<close>

theorem detectCycles_cycles_are_closed_walks:
  "(\<exists>r. detectCycles frames ts = Some r) \<and>
   (\<forall>rep. detectCycles frames ts = Some (Inr rep) \<longrightarrow>
      (\<forall>c \<in> set (cycles rep).
         2 \<le> length c \<and> hd c = last c
         \<and> (\<forall>i. Suc i < length c \<longrightarrow> is_edge ts (c ! i) (c ! Suc i))
         \<and> set c \<subseteq> set (errorTaskIds rep)))"
  using detectCycles_returns[of frames ts] detectCycles_sound[of frames ts] by blast

text \<open>
  The theorem at the two-task cycle \<open>x \<rightarrow> y \<rightarrow> x\<close>, with room for three nested calls: one
  cycle \<open>[x, y, x]\<close> is reported, and it is a closed walk whose ids are flagged.
\<close>

theorem detectCycles_cycles_are_closed_walks_witness:
  "\<exists>rep. detectCycles 3 [pending_task ''x'' [''y''], pending_task ''y'' [''x'']]
           = Some (Inr rep)
     \<and> cycles rep = [[''x'', ''y'', ''x'']] \<and> errorTaskIds rep = [''x'', ''y'']
     \<and> (\<forall>c \<in> set (cycles rep).
          2 \<le> length c \<and> hd c = last c
          \<and> (\<forall>i. Suc i < length c \<longrightarrow>
                 is_edge [pending_task ''x'' [''y''], pending_task ''y'' [''x'']] (c ! i) (c ! Suc i))
          \<and> set c \<subseteq> set (errorTaskIds rep))"
proof -
  let ?ts = "[pending_task ''x'' [''y''], pending_task ''y'' [''x'']]"
  have e: "detectCycles 3 ?ts =
      Some (Inr \<lparr>hasCycle = True, cycles = [[''x'', ''y'', ''x'']],
                 errorTaskIds = [''x'', ''y'']\<rparr>)"
    by code_simp
  from detectCycles_cycles_are_closed_walks[of 3 ?ts] e show ?thesis by simp
qed

text \<open>
  Claim C3, as stated, fails.  \<open>dfs\<close> is a recursive closure that nests one call per node
  of the path it walks, and the call stack is finite.  Whatever room \<open>frames\<close> the stack
  has, the chain of \<open>frames + 1\<close> tasks in which each task depends on the next one is
  acyclic, and on it \<open>detectCycles\<close> throws the \<open>RangeError\<close> of the exhausted stack
  instead of returning a report.
\<close>

theorem detectCycles_overflows_on_long_chain:
  "\<forall>frames. acyclic (dep_edges (chain (Suc frames)))
     \<and> detectCycles frames (chain (Suc frames)) = Some (Inl range_error)"
  using acyclic_chain detectCycles_chain_overflows by blast

text \<open>
  Claim C3, amended.  Every run of \<open>detectCycles\<close> ends, cyclic input or not, and the
  only error it raises is the \<open>RangeError\<close> of the exhausted stack.  When the stack has
  room for more nested calls than there are ids among the tasks and their dependencies,
  the run returns a report.  When the dependency graph is acyclic, a run that returns
  reports \<open>hasCycle = false\<close>, no cycle and no error task id.
\<close>

theorem detectCycles_ends_and_acyclic_empty:
  "(\<exists>r. detectCycles frames ts = Some r)
   \<and> (\<forall>e. detectCycles frames ts = Some (Inl e) \<longrightarrow> e = range_error)
   \<and> (card (all_ids ts) < frames \<longrightarrow> (\<exists>rep. detectCycles frames ts = Some (Inr rep)))
   \<and> (acyclic (dep_edges ts) \<longrightarrow>
        detectCycles frames ts = Some (Inl range_error)
        \<or> detectCycles frames ts
            = Some (Inr \<lparr>hasCycle = False, cycles = [], errorTaskIds = []\<rparr>))
   \<and> (acyclic (dep_edges ts) \<and> card (all_ids ts) < frames \<longrightarrow>
        detectCycles frames ts
          = Some (Inr \<lparr>hasCycle = False, cycles = [], errorTaskIds = []\<rparr>))"
proof -
  obtain r where r: "detectCycles frames ts = Some r"
    using detectCycles_returns by blast
  have t: "e = range_error" if "detectCycles frames ts = Some (Inl e)" for e
    using that by (rule detectCycles_throws)
  have f: "\<exists>rep. detectCycles frames ts = Some (Inr rep)" if "card (all_ids ts) < frames"
    using that by (rule detectCycles_fits)
  have a: "rep = \<lparr>hasCycle = False, cycles = [], errorTaskIds = []\<rparr>"
    if "acyclic (dep_edges ts)" "detectCycles frames ts = Some (Inr rep)" for rep
    using that by (rule detectCycles_acyclic)
  have a1: "detectCycles frames ts = Some (Inl range_error)
        \<or> detectCycles frames ts
            = Some (Inr \<lparr>hasCycle = False, cycles = [], errorTaskIds = []\<rparr>)"
    if "acyclic (dep_edges ts)"
    using r t a[OF that] by (cases r) auto
  have a2: "detectCycles frames ts
          = Some (Inr \<lparr>hasCycle = False, cycles = [], errorTaskIds = []\<rparr>)"
    if "acyclic (dep_edges ts) \<and> card (all_ids ts) < frames"
    using f a that by blast
  show ?thesis using r t f a1 a2 by blast
qed

text \<open>
  The theorem at the chain \<open>c \<rightarrow> b \<rightarrow> a\<close> with room for four nested calls: the graph is
  acyclic, three ids occur, and the report is the empty one; and at a task that depends
  on itself, where the run ends as well.
\<close>

theorem detectCycles_ends_and_acyclic_empty_witness:
  "acyclic (dep_edges [pending_task ''a'' [], pending_task ''b'' [''a''],
                        pending_task ''c'' [''b'']])
   \<and> card (all_ids [pending_task ''a'' [], pending_task ''b'' [''a''],
                     pending_task ''c'' [''b'']]) < 4
   \<and> detectCycles 4 [pending_task ''a'' [], pending_task ''b'' [''a''],
                      pending_task ''c'' [''b'']]
       = Some (Inr \<lparr>hasCycle = False, cycles = [], errorTaskIds = []\<rparr>)
   \<and> (\<exists>r. detectCycles 4 [pending_task ''s'' [''s'']] = Some r)"
proof -
  let ?ts = "[pending_task ''a'' [], pending_task ''b'' [''a''], pending_task ''c'' [''b'']]"
  let ?f = "\<lambda>s. if s = ''a'' then 0 else if s = ''b'' then 1 else (2::nat)"
  have "?f v < ?f u" if "(u, v) \<in> dep_edges ?ts" for u v
    using that by (auto simp: dep_edges_def is_edge_def pending_task_def)
  then have a: "acyclic (dep_edges ?ts)" by (rule acyclicI_order)
  have "all_ids ?ts = {''a'', ''b'', ''c''}"
    by (auto simp: all_ids_def pending_task_def)
  then have c: "card (all_ids ?ts) < 4" by simp
  from detectCycles_ends_and_acyclic_empty[of 4 ?ts] a c
  have "detectCycles 4 ?ts = Some (Inr \<lparr>hasCycle = False, cycles = [], errorTaskIds = []\<rparr>)"
    by blast
  moreover from detectCycles_ends_and_acyclic_empty[of 4 "[pending_task ''s'' [''s'']]"]
  have "\<exists>r. detectCycles 4 [pending_task ''s'' [''s'']] = Some r" by blast
  ultimately show ?thesis using a c by blast
qed

section \<open>Status resolution\<close>

lemma final_tasks_map:
  "final_tasks san cyc =
     map (\<lambda>t. (\<lambda>task. if status task = Error then task
                      else task\<lparr>status := determineTaskStatus task (task_id ` set san)\<rparr>)
                ((\<lambda>task. task\<lparr>status := (if task_id task \<in> set (errorTaskIds cyc)
                                  then Error else status task)\<rparr>) t)) san"
  by (simp add: final_tasks_def markCyclicTasksAsError_def Let_def image_image comp_def)

lemma final_tasks_ids: "map task_id (final_tasks san cyc) = map task_id san"
  unfolding final_tasks_map map_map by (rule map_cong) simp_all

lemma final_tasks_dependencies:
  "map dependencies (final_tasks san cyc) = map dependencies san"
  unfolding final_tasks_map map_map by (rule map_cong) simp_all

lemma final_tasks_status:
  assumes p: "\<forall>t \<in> set san. status t = Pending"
  shows "\<forall>t \<in> set (final_tasks san cyc).
           status t =
             (if task_id t \<in> set (errorTaskIds cyc) then Error
              else if dependencies t = [] then Ready
              else if set (dependencies t) \<subseteq> task_id ` set (final_tasks san cyc) then Blocked
              else Ready)"
proof -
  let ?mark = "\<lambda>task. task\<lparr>status := (if task_id task \<in> set (errorTaskIds cyc)
                                  then Error else status task)\<rparr>"
  let ?ids = "task_id ` set san"
  let ?fin = "\<lambda>task. if status task = Error then task
                      else task\<lparr>status := determineTaskStatus task ?ids\<rparr>"
  have ft: "final_tasks san cyc = map (\<lambda>t. ?fin (?mark t)) san"
    by (rule final_tasks_map)
  have ids: "task_id ` set (final_tasks san cyc) = ?ids"
    using final_tasks_ids[of san cyc] by (metis set_map)
  show ?thesis
  proof
    fix t assume "t \<in> set (final_tasks san cyc)"
    then obtain s where s: "s \<in> set san" and t: "t = ?fin (?mark s)"
      unfolding ft by auto
    have ps: "status s = Pending" using p s by simp
    show "status t =
             (if task_id t \<in> set (errorTaskIds cyc) then Error
              else if dependencies t = [] then Ready
              else if set (dependencies t) \<subseteq> task_id ` set (final_tasks san cyc) then Blocked
              else Ready)"
      unfolding ids using t ps by (auto simp: determineTaskStatus_def)
  qed
qed

section \<open>Orchestrator: how a run of \<open>processTranscript\<close> ends\<close>

lemma find_update_first:
  "(\<And>x. P (f x) = P x) \<Longrightarrow> find P (update_first P f xs) = map_option f (find P xs)"
  by (induction xs) auto

lemma block_returns: "\<exists>r. try_block frames llm F jid txt w = Some r"
proof (cases "llm txt")
  case (Inl e)
  then show ?thesis by (simp add: try_block_def generateTasks_def)
next
  case out: (Inr out)
  show ?thesis
  proof (cases "validateTasks out")
    case (Inl e)
    then show ?thesis using out by (simp add: try_block_def generateTasks_def)
  next
    case (Inr p)
    obtain san n where p: "p = (san, n)" by (cases p)
    obtain r where r: "detectCycles frames san = Some r"
      using detectCycles_returns by blast
    show ?thesis
      using out Inr p r unfolding try_block_def generateTasks_def Let_def
      by (cases r) (auto split: sum.splits)
  qed
qed

text \<open>What the world is when the \<open>try\<close> block ends normally.\<close>

lemma block_done_world:
  assumes "try_block frames llm F jid txt w = Some (Inr w')"
  shows "\<exists>out san n cyc.
      llm txt = Inr out \<and> validateTasks out = Inr (san, n) \<and> san \<noteq> []
    \<and> detectCycles frames san = Some (Inr cyc)
    \<and> JobModel w' = update_first (\<lambda>j. jobId j = jid)
         (\<lambda>j. j\<lparr>job_status := JDone, result := Some (build_result san n cyc)\<rparr>) (JobModel w)
    \<and> TaskModel w' = TaskModel w @ map (task_doc jid) (tasks (build_result san n cyc))
    \<and> llm_calls w' = llm_calls w @ [txt]"
proof (cases "llm txt")
  case (Inl e)
  then show ?thesis using assms by (simp add: try_block_def generateTasks_def)
next
  case out: (Inr out)
  show ?thesis
  proof (cases "validateTasks out")
    case (Inl e)
    then show ?thesis using assms out by (simp add: try_block_def generateTasks_def)
  next
    case (Inr p)
    obtain san n where p: "p = (san, n)" by (cases p)
    have ne: "san \<noteq> []"
      using assms out Inr p by (auto simp: try_block_def generateTasks_def)
    obtain r where r: "detectCycles frames san = Some r"
      using detectCycles_returns by blast
    show ?thesis
    proof (cases r)
      case (Inl e)
      then show ?thesis
        using assms out Inr p ne r by (simp add: try_block_def generateTasks_def)
    next
      case cyc: (Inr cyc)
      have "JobModel w' = update_first (\<lambda>j. jobId j = jid)
         (\<lambda>j. j\<lparr>job_status := JDone, result := Some (build_result san n cyc)\<rparr>) (JobModel w)
        \<and> TaskModel w' = TaskModel w @ map (task_doc jid) (tasks (build_result san n cyc))
        \<and> llm_calls w' = llm_calls w @ [txt]"
        using assms out Inr p ne r cyc
        unfolding try_block_def generateTasks_def Let_def saveTasks_def completeJob_def
        by (auto split: option.splits)
      then show ?thesis using out Inr p ne r cyc by blast
    qed
  qed
qed

text \<open>What the world is when the \<open>try\<close> block throws.\<close>

lemma block_throw_world:
  assumes "try_block frames llm F jid txt w = Some (Inl (e, w'))"
  shows "JobModel w' = JobModel w \<and> llm_calls w' = llm_calls w @ [txt]
     \<and> (\<exists>docs. TaskModel w' = TaskModel w @ docs)"
proof (cases "llm txt")
  case (Inl e)
  then show ?thesis using assms by (auto simp: try_block_def generateTasks_def)
next
  case out: (Inr out)
  show ?thesis
  proof (cases "validateTasks out")
    case (Inl e)
    then show ?thesis using assms out by (auto simp: try_block_def generateTasks_def)
  next
    case (Inr p)
    obtain san n where p: "p = (san, n)" by (cases p)
    show ?thesis
    proof (cases "san = []")
      case True
      then show ?thesis
        using assms out Inr p by (auto simp: try_block_def generateTasks_def)
    next
      case ne: False
      obtain r where r: "detectCycles frames san = Some r"
        using detectCycles_returns by blast
      show ?thesis
      proof (cases r)
        case (Inl e)
        then show ?thesis
          using assms out Inr p ne r by (auto simp: try_block_def generateTasks_def)
      next
        case cyc: (Inr cyc)
        show ?thesis
          using assms out Inr p ne r cyc
          unfolding try_block_def generateTasks_def Let_def saveTasks_def completeJob_def
          by (auto split: option.splits)
      qed
    qed
  qed
qed

lemma block_throw_jobs:
  "try_block frames llm F jid txt w = Some (Inl (e, w')) \<Longrightarrow> JobModel w' = JobModel w"
  using block_throw_world by blast

lemma block_done:
  assumes "try_block frames llm F jid txt w = Some (Inr w')"
    and "find (\<lambda>j. jobId j = jid) (JobModel w) = Some j"
  shows "\<exists>j'. find (\<lambda>j. jobId j = jid) (JobModel w') = Some j'
          \<and> job_status j' = JDone \<and> result j' \<noteq> None"
proof -
  from block_done_world[OF assms(1)] obtain res where
    "JobModel w' = update_first (\<lambda>j. jobId j = jid)
         (\<lambda>j. j\<lparr>job_status := JDone, result := Some res\<rparr>) (JobModel w)"
    by blast
  then show ?thesis using assms(2) by (simp add: find_update_first)
qed

lemma processTranscript_returns: "\<exists>r. processTranscript frames llm F jid t w = Some r"
proof -
  obtain b where b: "try_block frames llm F jid t w = Some b"
    using block_returns by blast
  show ?thesis
    unfolding processTranscript_def b
    by (cases b) (auto split: sum.splits prod.splits)
qed

text \<open>A run that resolves went through the \<open>try\<close> block or through \<open>failJob\<close>.\<close>

lemma processTranscript_resolved:
  assumes "processTranscript frames llm F jid t w = Some (Inr w')"
  shows "try_block frames llm F jid t w = Some (Inr w')
     \<or> (\<exists>e w0. try_block frames llm F jid t w = Some (Inl (e, w0))
            \<and> failJob F jid (errorMessage e) w0 = Inr w')"
proof -
  obtain b where b: "try_block frames llm F jid t w = Some b"
    using block_returns by blast
  show ?thesis
  proof (cases b)
    case (Inr w2)
    then show ?thesis using assms b by (simp add: processTranscript_def)
  next
    case (Inl ew)
    obtain e w0 where ew: "ew = (e, w0)" by (cases ew)
    show ?thesis
      using assms b Inl ew by (auto simp: processTranscript_def split: sum.splits)
  qed
qed

text \<open>
  Claim C4.  When a run of \<open>processTranscript\<close> leaves the job done, the model call
  returned an array, the sanitizer returned tasks from it, \<open>detectCycles\<close> returned a
  report on them, and the final task output (the tasks of the result stored in the job,
  and the task documents the run appended to the task collection) is those tasks, in
  order and with their dependencies, with status error when the id is in
  \<open>errorTaskIds\<close>; otherwise ready when the task has no dependency; otherwise blocked
  when every dependency is the id of a task of the output; otherwise ready.  So no task
  of the output is ready while its id is in \<open>errorTaskIds\<close>.
\<close>

theorem processTranscript_final_status_rule:
  assumes "processTranscript frames llm F jid t w = Some (Inr w')"
    and "find (\<lambda>j. jobId j = jid) (JobModel w') = Some j'"
    and "job_status j' = JDone"
  shows "\<exists>out san n cyc res.
      llm t = Inr out \<and> validateTasks out = Inr (san, n)
    \<and> detectCycles frames san = Some (Inr cyc)
    \<and> result j' = Some res
    \<and> TaskModel w' = TaskModel w @ map (task_doc jid) (tasks res)
    \<and> map task_id (tasks res) = map task_id san
    \<and> map dependencies (tasks res) = map dependencies san
    \<and> (\<forall>x \<in> set (tasks res).
          status x =
            (if task_id x \<in> set (errorTaskIds cyc) then Error
             else if dependencies x = [] then Ready
             else if set (dependencies x) \<subseteq> task_id ` set (tasks res) then Blocked
             else Ready)
          \<and> \<not> (status x = Ready \<and> task_id x \<in> set (errorTaskIds cyc)))"
proof -
  from processTranscript_resolved[OF assms(1)]
  consider (ok) "try_block frames llm F jid t w = Some (Inr w')"
    | (failed) e w0 where "try_block frames llm F jid t w = Some (Inl (e, w0))"
        "failJob F jid (errorMessage e) w0 = Inr w'"
    by blast
  then show ?thesis
  proof cases
    case failed
    from failed(2) have "JobModel w' = update_first (\<lambda>j. jobId j = jid)
        (\<lambda>j. j\<lparr>job_status := JError, error := Some (errorMessage e)\<rparr>) (JobModel w0)"
      by (auto simp: failJob_def split: option.splits)
    then have "\<exists>j. j' = j\<lparr>job_status := JError, error := Some (errorMessage e)\<rparr>"
      using assms(2) by (auto simp: find_update_first)
    then show ?thesis using assms(3) by auto
  next
    case ok
    from block_done_world[OF ok] obtain out san n cyc where
      o: "llm t = Inr out" and v: "validateTasks out = Inr (san, n)"
      and d: "detectCycles frames san = Some (Inr cyc)"
      and jm: "JobModel w' = update_first (\<lambda>j. jobId j = jid)
         (\<lambda>j. j\<lparr>job_status := JDone, result := Some (build_result san n cyc)\<rparr>) (JobModel w)"
      and tm: "TaskModel w' = TaskModel w @ map (task_doc jid) (tasks (build_result san n cyc))"
      by blast
    let ?res = "build_result san n cyc"
    have r: "result j' = Some ?res"
      using assms(2) jm by (auto simp: find_update_first)
    have p: "\<forall>x \<in> set san. status x = Pending"
      using validateTasks_Inr(3)[OF v] by blast
    have ts: "tasks ?res = final_tasks san cyc"
      by (simp add: build_result_def)
    have rule: "\<forall>x \<in> set (tasks ?res).
          status x =
            (if task_id x \<in> set (errorTaskIds cyc) then Error
             else if dependencies x = [] then Ready
             else if set (dependencies x) \<subseteq> task_id ` set (tasks ?res) then Blocked
             else Ready)
          \<and> \<not> (status x = Ready \<and> task_id x \<in> set (errorTaskIds cyc))"
      unfolding ts using final_tasks_status[OF p, of cyc] by auto
    have ids: "map task_id (tasks ?res) = map task_id san"
      and deps: "map dependencies (tasks ?res) = map dependencies san"
      unfolding ts by (rule final_tasks_ids, rule final_tasks_dependencies)
    show ?thesis
      using o v d r tm ids deps rule
      by (intro exI[of _ out] exI[of _ san] exI[of _ n] exI[of _ cyc] exI[of _ ?res]) blast
  qed
qed

text \<open>
  The theorem at a run on four records, a chain of two tasks and a cycle of two tasks,
  with a store that answers and room for eight nested calls: the job is done, and both
  the stored result and the task documents carry ready, blocked, error, error.
\<close>

theorem processTranscript_final_status_rule_witness:
  "\<exists>w' j' res.
      processTranscript 8
        (\<lambda>t. Inr [raw_task ''a'' ''A'' ''low'' [], raw_task ''b'' ''B'' ''low'' [''a''],
                   raw_task ''x'' ''X'' ''low'' [''y''], raw_task ''y'' ''Y'' ''low'' [''x'']])
        no_faults ''j1'' ''hello''
        \<lparr>JobModel = [new_job ''j1'' ''hello'' ''h1''], TaskModel = [], llm_calls = []\<rparr>
        = Some (Inr w')
    \<and> find (\<lambda>j. jobId j = ''j1'') (JobModel w') = Some j'
    \<and> job_status j' = JDone
    \<and> result j' = Some res
    \<and> map task_id (tasks res) = [''a'', ''b'', ''x'', ''y'']
    \<and> map status (tasks res) = [Ready, Blocked, Error, Error]
    \<and> map doc_status (TaskModel w') = [Ready, Blocked, Error, Error]
    \<and> circularDependencies res = [[''x'', ''y'', ''x'']]
    \<and> TaskModel w' = map (task_doc ''j1'') (tasks res)"
proof -
  let ?llm = "\<lambda>t::string. Inr [raw_task ''a'' ''A'' ''low'' [], raw_task ''b'' ''B'' ''low'' [''a''],
                   raw_task ''x'' ''X'' ''low'' [''y''], raw_task ''y'' ''Y'' ''low'' [''x'']]
                :: thrown + json list"
  let ?w = "\<lparr>JobModel = [new_job ''j1'' ''hello'' ''h1''], TaskModel = [], llm_calls = []\<rparr>"
  let ?t = "\<lambda>i d s. \<lparr>task_id = i, description = d, priority = Low, dependencies = s,
                      status = Pending, completed = None\<rparr>"
  let ?res = "\<lparr>tasks = [(?t ''a'' ''A'' [])\<lparr>status := Ready\<rparr>,
                         (?t ''b'' ''B'' [''a''])\<lparr>status := Blocked\<rparr>,
                         (?t ''x'' ''X'' [''y''])\<lparr>status := Error\<rparr>,
                         (?t ''y'' ''Y'' [''x''])\<lparr>status := Error\<rparr>],
               circularDependencies = [[''x'', ''y'', ''x'']],
               sanitizationReport =
                 \<lparr>invalidDependenciesRemoved = 0, tasksMarkedAsError = 2\<rparr>\<rparr>"
  let ?j' = "(new_job ''j1'' ''hello'' ''h1'')\<lparr>job_status := JDone, result := Some ?res\<rparr>"
  let ?w' = "\<lparr>JobModel = [?j'], TaskModel = map (task_doc ''j1'') (tasks ?res),
              llm_calls = [''hello'']\<rparr>"
  have run: "processTranscript 8 ?llm no_faults ''j1'' ''hello'' ?w = Some (Inr ?w')"
    by code_simp
  have f: "find (\<lambda>j. jobId j = ''j1'') (JobModel ?w') = Some ?j'"
    by (simp add: new_job_def)
  have s: "job_status ?j' = JDone" by simp
  from processTranscript_final_status_rule[OF run f s] obtain res where
    r: "result ?j' = Some res"
    and tm: "TaskModel ?w' = TaskModel ?w @ map (task_doc ''j1'') (tasks res)"
    by blast
  from r have res: "res = ?res" by simp
  show ?thesis
    using run f s r tm unfolding res
    by (intro exI[of _ ?w'] exI[of _ ?j'] exI[of _ ?res]) (simp add: task_doc_def)
qed

text \<open>
  Claim C5, as stated, fails: when the store rejects every operation, \<open>saveTasks\<close> throws,
  the \<open>catch\<close> block calls \<open>failJob\<close>, \<open>failJob\<close> rejects as well, and so does the
  promise of \<open>processTranscript\<close>; the job is still in status processing.
\<close>

theorem processTranscript_rejects_when_store_is_down:
  "processTranscript 8 (\<lambda>t. Inr [raw_task ''t1'' ''Do A'' ''low'' []]) store_down
     ''j1'' ''hello''
     \<lparr>JobModel = [new_job ''j1'' ''hello'' ''h1''], TaskModel = [], llm_calls = []\<rparr>
   = Some (Inl (JsError ''connection lost'',
        \<lparr>JobModel = [new_job ''j1'' ''hello'' ''h1''], TaskModel = [],
         llm_calls = [''hello'']\<rparr>))"
  by code_simp

text \<open>
  Claim C5, amended.  \<open>processTranscript\<close> always returns.  Its promise rejects only when
  \<open>failJob\<close> rejects, then with the error of \<open>failJob\<close> and with the job collection as
  it was; when \<open>failJob\<close> does not reject the promise resolves.  When it resolves, the
  job with the given id, if it is stored, is afterwards done with a result or in error
  with a message, and it is in error with the message of the failure whenever the \<open>try\<close>
  block threw.
\<close>

theorem processTranscript_outcome:
  "\<exists>r. processTranscript frames llm F jid txt w = Some r
     \<and> (F OpFailJob = None \<longrightarrow> (\<exists>w'. r = Inr w'))
     \<and> (case r of
          Inl (e, w') \<Rightarrow> F OpFailJob = Some e \<and> JobModel w' = JobModel w
        | Inr w' \<Rightarrow>
            (\<forall>j. find (\<lambda>j. jobId j = jid) (JobModel w) = Some j \<longrightarrow>
               (\<exists>j'. find (\<lambda>j. jobId j = jid) (JobModel w') = Some j'
                  \<and> (job_status j' = JDone \<and> result j' \<noteq> None
                      \<or> job_status j' = JError \<and> error j' \<noteq> None)
                  \<and> (\<forall>e w0. try_block frames llm F jid txt w = Some (Inl (e, w0)) \<longrightarrow>
                        job_status j' = JError \<and> error j' = Some (errorMessage e)))))"
proof -
  obtain t where t: "try_block frames llm F jid txt w = Some t"
    using block_returns by blast
  show ?thesis
  proof (cases t)
    case (Inr w')
    then have p: "processTranscript frames llm F jid txt w = Some (Inr w')"
      using t by (simp add: processTranscript_def)
    show ?thesis using p block_done[of frames llm F jid "txt" w w'] t Inr by auto
  next
    case (Inl ew)
    obtain e w0 where ew: "ew = (e, w0)" by (cases ew)
    have jm: "JobModel w0 = JobModel w" using block_throw_jobs t Inl ew by blast
    show ?thesis
    proof (cases "F OpFailJob")
      case (Some e')
      then have "processTranscript frames llm F jid txt w = Some (Inl (e', w0))"
        using t Inl ew by (simp add: processTranscript_def failJob_def)
      then show ?thesis using Some jm by simp
    next
      case None
      let ?w = "w0\<lparr>JobModel := update_first (\<lambda>j. jobId j = jid)
                 (\<lambda>j. j\<lparr>job_status := JError, error := Some (errorMessage e)\<rparr>) (JobModel w0)\<rparr>"
      have p: "processTranscript frames llm F jid txt w = Some (Inr ?w)"
        using t Inl ew None by (simp add: processTranscript_def failJob_def)
      have "find (\<lambda>j. jobId j = jid) (JobModel ?w) =
              Some (j\<lparr>job_status := JError, error := Some (errorMessage e)\<rparr>)"
        if "find (\<lambda>j. jobId j = jid) (JobModel w) = Some j" for j
        using that jm by (simp add: find_update_first)
      then show ?thesis using p t Inl ew None by auto
    qed
  qed
qed

text \<open>
  The theorem at a run whose model call fails while the store works: the promise resolves
  and the job ends in error with the message of the model call.
\<close>

theorem processTranscript_outcome_witness:
  "no_faults OpFailJob = None
   \<and> find (\<lambda>j. jobId j = ''j1'')
        (JobModel \<lparr>JobModel = [new_job ''j1'' ''hello'' ''h1''], TaskModel = [], llm_calls = []\<rparr>)
       = Some (new_job ''j1'' ''hello'' ''h1'')
   \<and> (\<exists>w'. processTranscript 8 (\<lambda>t. Inl (JsError ''model unreachable'')) no_faults
              ''j1'' ''hello''
          \<lparr>JobModel = [new_job ''j1'' ''hello'' ''h1''], TaskModel = [], llm_calls = []\<rparr>
          = Some (Inr w')
        \<and> (\<exists>j'. find (\<lambda>j. jobId j = ''j1'') (JobModel w') = Some j'
              \<and> job_status j' = JError \<and> error j' = Some ''model unreachable''))"
proof -
  let ?llm = "\<lambda>t::string. Inl (JsError ''model unreachable'') :: thrown + json list"
  let ?w = "\<lparr>JobModel = [new_job ''j1'' ''hello'' ''h1''], TaskModel = [], llm_calls = []\<rparr>"
  have f: "no_faults OpFailJob = None" by (simp add: no_faults_def)
  have j: "find (\<lambda>j. jobId j = ''j1'') (JobModel ?w) = Some (new_job ''j1'' ''hello'' ''h1'')"
    by (simp add: new_job_def)
  have t: "try_block 8 ?llm no_faults ''j1'' ''hello'' ?w =
             Some (Inl (JsError ''model unreachable'', ?w\<lparr>llm_calls := [''hello'']\<rparr>))"
    by (simp add: try_block_def generateTasks_def)
  from processTranscript_outcome[of 8 ?llm no_faults "''j1''" "''hello''" ?w]
  obtain r where rr: "processTranscript 8 ?llm no_faults ''j1'' ''hello'' ?w = Some r
     \<and> (no_faults OpFailJob = None \<longrightarrow> (\<exists>w'. r = Inr w'))
     \<and> (case r of
          Inl (e, w') \<Rightarrow> no_faults OpFailJob = Some e \<and> JobModel w' = JobModel ?w
        | Inr w' \<Rightarrow>
            (\<forall>j. find (\<lambda>j. jobId j = ''j1'') (JobModel ?w) = Some j \<longrightarrow>
               (\<exists>j'. find (\<lambda>j. jobId j = ''j1'') (JobModel w') = Some j'
                  \<and> (job_status j' = JDone \<and> result j' \<noteq> None
                      \<or> job_status j' = JError \<and> error j' \<noteq> None)
                  \<and> (\<forall>e w0. try_block 8 ?llm no_faults ''j1'' ''hello'' ?w
                                = Some (Inl (e, w0)) \<longrightarrow>
                        job_status j' = JError \<and> error j' = Some (errorMessage e)))))" ..
  note r = conjunct1[OF rr] and a = conjunct1[OF conjunct2[OF rr]]
    and b = conjunct2[OF conjunct2[OF rr]]
  from a f obtain w' where w': "r = Inr w'" by blast
  from b w' j obtain j' where j': "find (\<lambda>j. jobId j = ''j1'') (JobModel w') = Some j'"
    and c: "\<forall>e w0. try_block 8 ?llm no_faults ''j1'' ''hello'' ?w = Some (Inl (e, w0)) \<longrightarrow>
                        job_status j' = JError \<and> error j' = Some (errorMessage e)"
    by auto
  from c t have "job_status j' = JError \<and> error j' = Some ''model unreachable''"
    by auto
  with r w' j'
  have "\<exists>w'. processTranscript 8 ?llm no_faults ''j1'' ''hello'' ?w = Some (Inr w')
        \<and> (\<exists>j'. find (\<lambda>j. jobId j = ''j1'') (JobModel w') = Some j'
              \<and> job_status j' = JError \<and> error j' = Some ''model unreachable'')"
    by blast
  then show ?thesis using f j by blast
qed

text \<open>
  Claim C7.  When the sanitizer returns no task (as it does on the empty array), and
  \<open>failJob\<close> does not reject, the run resolves and the stored job with that id has
  status error and the message \<open>No valid tasks extracted from transcript\<close>; its other
  fields, the result among them, are as they were, and no task document is written.
\<close>

theorem empty_sanitized_sequence_fails_job:
  assumes "llm t = Inr out" and "validateTasks out = Inr ([], n)"
    and "F OpFailJob = None"
    and "find (\<lambda>j. jobId j = jid) (JobModel w) = Some j"
  shows "validateTasks [] = Inr ([], 0)
     \<and> (\<exists>w'. processTranscript frames llm F jid t w = Some (Inr w')
           \<and> find (\<lambda>j. jobId j = jid) (JobModel w') =
               Some (j\<lparr>job_status := JError,
                       error := Some ''No valid tasks extracted from transcript''\<rparr>)
           \<and> TaskModel w' = TaskModel w)"
proof -
  have "try_block frames llm F jid t w =
      Some (Inl (JsError ''No valid tasks extracted from transcript'',
                 w\<lparr>llm_calls := llm_calls w @ [t]\<rparr>))"
    using assms(1,2) by (simp add: try_block_def generateTasks_def)
  then have "processTranscript frames llm F jid t w =
      Some (Inr (w\<lparr>llm_calls := llm_calls w @ [t],
                   JobModel := update_first (\<lambda>j. jobId j = jid)
                     (\<lambda>j. j\<lparr>job_status := JError,
                            error := Some ''No valid tasks extracted from transcript''\<rparr>)
                     (JobModel w)\<rparr>))"
    using assms(3) by (simp add: processTranscript_def failJob_def)
  then have "\<exists>w'. processTranscript frames llm F jid t w = Some (Inr w')
           \<and> find (\<lambda>j. jobId j = jid) (JobModel w') =
               Some (j\<lparr>job_status := JError,
                       error := Some ''No valid tasks extracted from transcript''\<rparr>)
           \<and> TaskModel w' = TaskModel w"
    using assms(4) by (simp add: find_update_first)
  moreover have "validateTasks [] = Inr ([], 0)"
    by (simp add: validateTasks_def)
  ultimately show ?thesis by blast
qed

text \<open>
  The theorem at a model call that returns the empty array, for a job just created: the
  job ends in error with the message and without a result.
\<close>

theorem empty_sanitized_sequence_fails_job_witness:
  "(\<lambda>t::string. Inr [] :: thrown + json list) ''hello'' = Inr []
   \<and> validateTasks [] = Inr ([], 0)
   \<and> no_faults OpFailJob = None
   \<and> find (\<lambda>j. jobId j = ''j1'')
        (JobModel \<lparr>JobModel = [new_job ''j1'' ''hello'' ''h1''], TaskModel = [], llm_calls = []\<rparr>)
       = Some (new_job ''j1'' ''hello'' ''h1'')
   \<and> (\<exists>w'. processTranscript 8 (\<lambda>t. Inr []) no_faults ''j1'' ''hello''
          \<lparr>JobModel = [new_job ''j1'' ''hello'' ''h1''], TaskModel = [], llm_calls = []\<rparr>
          = Some (Inr w')
        \<and> find (\<lambda>j. jobId j = ''j1'') (JobModel w') =
            Some \<lparr>jobId = ''j1'', transcript = ''hello'', transcriptHash = ''h1'',
                  job_status = JError, result = None,
                  error = Some ''No valid tasks extracted from transcript'',
                  activities = []\<rparr>
        \<and> TaskModel w' = [])"
proof -
  let ?llm = "\<lambda>t::string. Inr [] :: thrown + json list"
  let ?w = "\<lparr>JobModel = [new_job ''j1'' ''hello'' ''h1''], TaskModel = [], llm_calls = []\<rparr>"
  have a: "?llm ''hello'' = Inr []" by simp
  have b: "validateTasks [] = Inr ([], 0)" by (simp add: validateTasks_def)
  have c: "no_faults OpFailJob = None" by (simp add: no_faults_def)
  have d: "find (\<lambda>j. jobId j = ''j1'') (JobModel ?w) = Some (new_job ''j1'' ''hello'' ''h1'')"
    by (simp add: new_job_def)
  from empty_sanitized_sequence_fails_job[of ?llm "''hello''" "[]" 0 no_faults "''j1''" ?w _ 8,
         OF a b c d]
  show ?thesis using a c d by (simp add: new_job_def)
qed

section \<open>Routes: submission\<close>

lemma map_update_first: "(\<And>x. g (f x) = g x) \<Longrightarrow> map g (update_first P f xs) = map g xs"
  by (induction xs) auto

lemma lookup_by_keys:
  "map_option jobId (find (\<lambda>j. transcriptHash j = h) js) =
     map_option fst (find (\<lambda>p. snd p = h) (map (\<lambda>j. (jobId j, transcriptHash j)) js))"
  by (induction js) auto

lemma findExistingJob_keys:
  assumes "job_keys w' = job_keys w"
  shows "findExistingJob H F t w' = findExistingJob H F t w"
proof -
  have "map_option jobId (find (\<lambda>j. transcriptHash j = H t) (JobModel w')) =
        map_option jobId (find (\<lambda>j. transcriptHash j = H t) (JobModel w))"
    unfolding lookup_by_keys using assms by (simp add: job_keys_def)
  then show ?thesis by (simp add: findExistingJob_def split: option.splits)
qed

lemma submit_lookup_keys:
  assumes "job_keys w' = job_keys w"
  shows "submit_lookup H F t w' = submit_lookup H F t w"
  by (cases t) (simp_all add: submit_lookup_def findExistingJob_keys[OF assms])

lemma find_snoc:
  "find P (xs @ [y]) = (case find P xs of None \<Rightarrow> (if P y then Some y else None) | Some x \<Rightarrow> Some x)"
  by (induction xs) auto

lemma failJob_frame:
  "failJob F jid m w = Inr w' \<Longrightarrow>
     job_keys w' = job_keys w \<and> llm_calls w' = llm_calls w \<and> TaskModel w' = TaskModel w"
  by (auto simp: failJob_def job_keys_def map_update_first split: option.splits)

lemma completeJob_frame:
  "completeJob F jid res w = Inr w' \<Longrightarrow>
     job_keys w' = job_keys w \<and> llm_calls w' = llm_calls w \<and> TaskModel w' = TaskModel w"
  by (auto simp: completeJob_def job_keys_def map_update_first split: option.splits)

lemma saveTasks_frame:
  "saveTasks F jid ts w = Inr w' \<Longrightarrow>
     JobModel w' = JobModel w \<and> llm_calls w' = llm_calls w"
  by (auto simp: saveTasks_def split: option.splits)

lemma block_frame:
  assumes "try_block frames llm F jid t w = Some r"
  shows "job_keys (world_after r) = job_keys w \<and> llm_calls (world_after r) = llm_calls w @ [t]"
proof (cases r)
  case (Inr w')
  from block_done_world[of frames llm F jid t w w'] assms Inr obtain res where
    "JobModel w' = update_first (\<lambda>j. jobId j = jid)
         (\<lambda>j. j\<lparr>job_status := JDone, result := Some res\<rparr>) (JobModel w)"
    and "llm_calls w' = llm_calls w @ [t]"
    by blast
  then show ?thesis using Inr by (simp add: job_keys_def map_update_first)
next
  case (Inl ew)
  obtain e w' where ew: "ew = (e, w')" by (cases ew)
  from block_throw_world[of frames llm F jid t w e w'] assms Inl ew
  show ?thesis by (simp add: job_keys_def)
qed

lemma processTranscript_frame:
  assumes "processTranscript frames llm F jid t w = Some r"
  shows "job_keys (world_after r) = job_keys w \<and> llm_calls (world_after r) = llm_calls w @ [t]"
proof -
  from assms obtain b where b: "try_block frames llm F jid t w = Some b"
    by (auto simp: processTranscript_def split: option.splits)
  note fr = block_frame[OF b]
  show ?thesis
  proof (cases b)
    case (Inr w')
    then show ?thesis using assms b fr by (simp add: processTranscript_def)
  next
    case (Inl ew)
    obtain e w0 where ew: "ew = (e, w0)" by (cases ew)
    show ?thesis
    proof (cases "failJob F jid (errorMessage e) w0")
      case (Inl e')
      then show ?thesis using assms b fr \<open>b = Inl ew\<close> ew by (auto simp: processTranscript_def)
    next
      case (Inr w'')
      then show ?thesis
        using assms b fr \<open>b = Inl ew\<close> ew failJob_frame[OF Inr]
        by (auto simp: processTranscript_def)
    qed
  qed
qed

text \<open>
  Claim C6.  A transcript whose content is new is submitted, with a store that answers:
  the response is 202 with the fresh job id \<open>u\<close>, and one background run of
  \<open>processTranscript\<close> is started.  Any later submission whose text trims to the same
  string, before or after that run, is answered 200 with the same job id \<open>u\<close>, changes
  nothing and starts no run.  The run calls the model exactly once, so the two
  submissions cause exactly one model call.  The lookup uses \<open>H\<close> applied to the trimmed
  text, whatever function \<open>H\<close> is.  The requests are served one after the other.
\<close>

theorem resubmission_returns_same_job:
  assumes fresh: "\<forall>j \<in> set (JobModel w). jobId j \<noteq> u \<and> transcriptHash j \<noteq> H (trim t)"
    and ok1: "F OpFindExistingJob = None" "F OpCreateJob = None"
    and ok2: "F' OpFindExistingJob = None"
    and ne: "trim t \<noteq> []" and same: "trim t' = trim t"
  shows "\<exists>w1.
      post_submit H F (JStr t) u w =
        (\<lparr>code = 202, body = JobBody u ''processing'' None\<rparr>, w1, Some (u, trim t))
    \<and> llm_calls w1 = llm_calls w
    \<and> post_submit H F' (JStr t') u' w1 =
        (\<lparr>code = 200, body = JobBody u ''processing''
            (Some ''Transcript already submitted, returning existing job ID'')\<rparr>, w1, None)
    \<and> (\<forall>frames llm F''. \<exists>r. processTranscript frames llm F'' u (trim t) w1 = Some r
          \<and> llm_calls (world_after r) = llm_calls w1 @ [trim t]
          \<and> post_submit H F' (JStr t') u' (world_after r) =
              (\<lparr>code = 200, body = JobBody u ''processing''
                  (Some ''Transcript already submitted, returning existing job ID'')\<rparr>,
               world_after r, None))"
proof -
  let ?c = "trim t"
  let ?nj = "new_job u ?c (H ?c)"
  let ?w1 = "w\<lparr>JobModel := JobModel w @ [?nj]\<rparr>"
  let ?again = "\<lparr>code = 200, body = JobBody u ''processing''
                   (Some ''Transcript already submitted, returning existing job ID'')\<rparr>"
  have trim_nil: "trim [] = []" by (simp add: trim_def)
  have tne: "t \<noteq> []" using ne trim_nil by auto
  have t'ne: "t' \<noteq> []" using ne same trim_nil by auto
  have nf: "find (\<lambda>j. transcriptHash j = H ?c) (JobModel w) = None"
    using fresh by (simp add: find_None_iff)
  have l1: "submit_lookup H F (JStr t) w = Proceed ?c"
    using ne tne ok1(1) nf by (simp add: submit_lookup_def findExistingJob_def)
  have c1: "createJob H F u ?c w = Inr ?w1"
    using ok1(2) fresh by (auto simp: createJob_def)
  have s1: "post_submit H F (JStr t) u w =
        (\<lparr>code = 202, body = JobBody u ''processing'' None\<rparr>, ?w1, Some (u, ?c))"
    using l1 c1 by (simp add: post_submit_def submit_create_def)
  have f1: "find (\<lambda>j. transcriptHash j = H ?c) (JobModel ?w1) = Some ?nj"
    using nf by (simp add: find_snoc new_job_def)
  have l2: "submit_lookup H F' (JStr t') ?w1 = Respond ?again"
    using ne t'ne same ok2 f1
    by (simp add: submit_lookup_def findExistingJob_def new_job_def)
  have s2: "post_submit H F' (JStr t') u' ?w1 = (?again, ?w1, None)"
    using l2 by (simp add: post_submit_def)
  have after: "\<exists>r. processTranscript frames llm F'' u ?c ?w1 = Some r
          \<and> llm_calls (world_after r) = llm_calls ?w1 @ [?c]
          \<and> post_submit H F' (JStr t') u' (world_after r) = (?again, world_after r, None)"
    for frames llm F''
  proof -
    obtain r where r: "processTranscript frames llm F'' u ?c ?w1 = Some r"
      using processTranscript_returns by blast
    from processTranscript_frame[OF r] have k: "job_keys (world_after r) = job_keys ?w1"
      and c: "llm_calls (world_after r) = llm_calls ?w1 @ [?c]" by blast+
    have "submit_lookup H F' (JStr t') (world_after r) = Respond ?again"
      using submit_lookup_keys[OF k] l2 by simp
    then have "post_submit H F' (JStr t') u' (world_after r) = (?again, world_after r, None)"
      by (simp add: post_submit_def)
    then show ?thesis using r c by blast
  qed
  show ?thesis
    using s1 s2 after by (intro exI[of _ ?w1]) simp
qed

text \<open>
  The theorem at \<open>" hello "\<close> followed by \<open>"hello"\<close>, on an empty store; the identity
  stands in for the digest.  Both responses carry the job id \<open>u1\<close>, and after the run the
  model has been called once.
\<close>

theorem resubmission_returns_same_job_witness:
  "JobModel empty_world = []
   \<and> trim '' hello '' \<noteq> [] \<and> trim ''hello'' = trim '' hello ''
   \<and> (\<exists>w1. post_submit (\<lambda>s. s) no_faults (JStr '' hello '') ''u1'' empty_world =
          (\<lparr>code = 202, body = JobBody ''u1'' ''processing'' None\<rparr>, w1, Some (''u1'', ''hello''))
        \<and> post_submit (\<lambda>s. s) no_faults (JStr ''hello'') ''u2'' w1 =
            (\<lparr>code = 200, body = JobBody ''u1'' ''processing''
                (Some ''Transcript already submitted, returning existing job ID'')\<rparr>, w1, None)
        \<and> (\<exists>r. processTranscript 8 (\<lambda>t. Inr [raw_task ''t1'' ''Do A'' ''low'' []]) no_faults
                  ''u1'' ''hello'' w1 = Some r
              \<and> llm_calls (world_after r) = [''hello'']
              \<and> post_submit (\<lambda>s. s) no_faults (JStr ''hello'') ''u2'' (world_after r) =
                  (\<lparr>code = 200, body = JobBody ''u1'' ''processing''
                      (Some ''Transcript already submitted, returning existing job ID'')\<rparr>,
                   world_after r, None)))"
proof -
  let ?again = "\<lparr>code = 200, body = JobBody ''u1'' ''processing''
                   (Some ''Transcript already submitted, returning existing job ID'')\<rparr>"
  have t1: "trim '' hello '' = ''hello''" by code_simp
  have t2: "trim ''hello'' = ''hello''" by code_simp
  have fresh: "\<forall>j \<in> set (JobModel empty_world).
                 jobId j \<noteq> ''u1'' \<and> transcriptHash j \<noteq> (\<lambda>s. s) (trim '' hello '')"
    by (simp add: empty_world_def)
  have ok: "no_faults OpFindExistingJob = None" "no_faults OpCreateJob = None"
    by (simp_all add: no_faults_def)
  have ne: "trim '' hello '' \<noteq> []" using t1 by simp
  have same: "trim ''hello'' = trim '' hello ''" using t1 t2 by simp
  from resubmission_returns_same_job[of empty_world "''u1''" "\<lambda>s. s" "'' hello ''"
         no_faults no_faults "''hello''" "''u2''", OF fresh ok ok(1) ne same]
  obtain w1 where
    a: "post_submit (\<lambda>s. s) no_faults (JStr '' hello '') ''u1'' empty_world =
          (\<lparr>code = 202, body = JobBody ''u1'' ''processing'' None\<rparr>, w1,
           Some (''u1'', trim '' hello ''))"
    and l: "llm_calls w1 = llm_calls empty_world"
    and b: "post_submit (\<lambda>s. s) no_faults (JStr ''hello'') ''u2'' w1 = (?again, w1, None)"
    and c: "\<forall>frames llm F''. \<exists>r. processTranscript frames llm F'' ''u1'' (trim '' hello '') w1
                = Some r
          \<and> llm_calls (world_after r) = llm_calls w1 @ [trim '' hello '']
          \<and> post_submit (\<lambda>s. s) no_faults (JStr ''hello'') ''u2'' (world_after r)
              = (?again, world_after r, None)"
    by blast
  from c obtain r where
    "processTranscript 8 (\<lambda>t. Inr [raw_task ''t1'' ''Do A'' ''low'' []]) no_faults
        ''u1'' (trim '' hello '') w1 = Some r
     \<and> llm_calls (world_after r) = llm_calls w1 @ [trim '' hello '']
     \<and> post_submit (\<lambda>s. s) no_faults (JStr ''hello'') ''u2'' (world_after r)
              = (?again, world_after r, None)"
    by blast
  then show ?thesis using a b l ne same t1 by (auto simp: empty_world_def)
qed

text \<open>
  Claim C9 fails in the code.  Two requests with the same text are served with their
  awaits interleaved: both pass the lookup on the empty store and go on; the first
  creates the job and is answered 202 with its id; \<open>createJob\<close> of the second then
  violates the unique index on the content hash, the error reaches the \<open>catch\<close> block
  of the handler, and the answer is 500 with \<open>Internal server error\<close>: the existing job
  id is not returned, although the handler's own comment says that a transcript
  submitted twice gets the existing id, as it does when the second request comes after
  the first.  The identity stands in for the digest.
\<close>

theorem racing_submissions_second_gets_500:
  "submit_lookup (\<lambda>s. s) no_faults (JStr ''hello'') empty_world = Proceed ''hello''
   \<and> submit_create (\<lambda>s. s) no_faults ''u1'' ''hello'' empty_world =
       (\<lparr>code = 202, body = JobBody ''u1'' ''processing'' None\<rparr>,
        \<lparr>JobModel = [new_job ''u1'' ''hello'' ''hello''], TaskModel = [], llm_calls = []\<rparr>,
        Some (''u1'', ''hello''))
   \<and> submit_create (\<lambda>s. s) no_faults ''u2'' ''hello''
        \<lparr>JobModel = [new_job ''u1'' ''hello'' ''hello''], TaskModel = [], llm_calls = []\<rparr> =
       (\<lparr>code = 500, body = ErrorBody ''Internal server error''\<rparr>,
        \<lparr>JobModel = [new_job ''u1'' ''hello'' ''hello''], TaskModel = [], llm_calls = []\<rparr>,
        None)
   \<and> post_submit (\<lambda>s. s) no_faults (JStr ''hello'') ''u2''
        \<lparr>JobModel = [new_job ''u1'' ''hello'' ''hello''], TaskModel = [], llm_calls = []\<rparr> =
       (\<lparr>code = 200, body = JobBody ''u1'' ''processing''
           (Some ''Transcript already submitted, returning existing job ID'')\<rparr>,
        \<lparr>JobModel = [new_job ''u1'' ''hello'' ''hello''], TaskModel = [], llm_calls = []\<rparr>,
        None)"
  by code_simp

section \<open>Routes: task completion\<close>

text \<open>
  Claim C8, as stated, fails.  A job with two tasks is processed: the Status Resolver makes
  task \<open>a\<close> ready and the cycle-marking step puts task \<open>x\<close>, which depends on itself, in
  error; the task documents carry these statuses.  \<open>PATCH\<close> with \<open>completed = false\<close> on
  \<open>x\<close> then changes the status of its task document from error to ready, and the
  response shows the task as ready.  \<open>PATCH\<close> with \<open>completed = true\<close> on \<open>a\<close> changes
  the status of its task document from ready to completed.  The result stored in the job
  keeps the statuses it had.
\<close>

theorem patch_changes_assigned_status:
  "processTranscript 8
       (\<lambda>t. Inr [raw_task ''a'' ''d'' ''low'' [], raw_task ''x'' ''d'' ''low'' [''x'']])
       no_faults ''j1'' ''hello''
       \<lparr>JobModel = [new_job ''j1'' ''hello'' ''h1''], TaskModel = [], llm_calls = []\<rparr>
     = Some (Inr done_world)
   \<and> map status (tasks done_result) = [Ready, Error]
   \<and> map doc_status (TaskModel done_world) = [Ready, Error]
   \<and> fst (patch_task no_faults ''j1'' ''x'' (JBool False) done_world) =
       \<lparr>code = 200,
        body = ResultBody (done_result\<lparr>tasks :=
          [(pending_task ''a'' [])\<lparr>status := Ready\<rparr>,
           (pending_task ''x'' [''x''])\<lparr>status := Ready, completed := Some False\<rparr>]\<rparr>)\<rparr>
   \<and> map doc_status (TaskModel (snd (patch_task no_faults ''j1'' ''x'' (JBool False) done_world)))
       = [Ready, Ready]
   \<and> map result (JobModel (snd (patch_task no_faults ''j1'' ''x'' (JBool False) done_world)))
       = [Some done_result]
   \<and> fst (patch_task no_faults ''j1'' ''a'' (JBool True) done_world) =
       \<lparr>code = 200,
        body = ResultBody (done_result\<lparr>tasks :=
          [(pending_task ''a'' [])\<lparr>status := Completed, completed := Some True\<rparr>,
           (pending_task ''x'' [''x''])\<lparr>status := Error\<rparr>]\<rparr>)\<rparr>
   \<and> map doc_status (TaskModel (snd (patch_task no_faults ''j1'' ''a'' (JBool True) done_world)))
       = [Completed, Error]"
  by code_simp

lemma update_first_nth:
  "\<exists>x \<in> set xs. P x \<Longrightarrow>
     \<exists>i < length xs. P (xs ! i) \<and> (\<forall>k < i. \<not> P (xs ! k))
        \<and> update_first P f xs = xs[i := f (xs ! i)]"
proof (induction xs)
  case Nil
  then show ?case by simp
next
  case (Cons x xs)
  show ?case
  proof (cases "P x")
    case True
    then show ?thesis by (intro exI[of _ 0]) simp
  next
    case False
    with Cons.prems have "\<exists>x \<in> set xs. P x" by simp
    from Cons.IH[OF this] obtain i where i: "i < length xs" "P (xs ! i)"
      "\<forall>k < i. \<not> P (xs ! k)" "update_first P f xs = xs[i := f (xs ! i)]" by blast
    have "\<forall>k < Suc i. \<not> P ((x # xs) ! k)"
      using False i(3) by (auto simp: less_Suc_eq_0_disj)
    then show ?thesis using False i by (intro exI[of _ "Suc i"]) simp
  qed
qed

lemma update_first_none: "\<not> (\<exists>x \<in> set xs. P x) \<Longrightarrow> update_first P f xs = xs"
  by (induction xs) auto

lemma length_update_first: "length (update_first P f xs) = length xs"
  by (induction xs) auto

lemma update_first_other:
  "k < length xs \<Longrightarrow> \<not> P (xs ! k) \<Longrightarrow> update_first P f xs ! k = xs ! k"
proof (induction xs arbitrary: k)
  case Nil
  then show ?case by simp
next
  case (Cons x xs)
  then show ?case by (cases k) auto
qed

text \<open>What a call of \<open>setTaskCompletion\<close> that returns a result has done.\<close>

lemma setTaskCompletion_Some:
  assumes "setTaskCompletion F jid tid b w = Inr (Some res', w')"
  shows "\<exists>job res. find (\<lambda>j. jobId j = jid) (JobModel w) = Some job \<and> result job = Some res
      \<and> (\<exists>x \<in> set (tasks res). task_id x = tid)
      \<and> res' = res\<lparr>tasks := update_first (\<lambda>x. task_id x = tid)
                 (\<lambda>t. t\<lparr>completed := Some b, status := (if b then Completed else Ready)\<rparr>)
                 (tasks res)\<rparr>
      \<and> TaskModel w' = update_first (\<lambda>d. doc_jobId d = jid \<and> taskId d = tid)
                 (\<lambda>d. d\<lparr>doc_status := (if b then Completed else Ready)\<rparr>) (TaskModel w)
      \<and> (\<exists>msg. JobModel w' = update_first (\<lambda>j. jobId j = jid)
                 (\<lambda>j. j\<lparr>activities := activities j @ [msg]\<rparr>) (JobModel w))"
  using assms
  by (auto simp: setTaskCompletion_def Let_def split: option.splits if_splits)

text \<open>
  Claim C8, amended.  The statuses of the tasks are assigned while the job is processed
  and written by \<open>saveTasks\<close> and \<open>completeJob\<close>.  Afterwards a call of
  \<open>setTaskCompletion\<close> that returns a result has changed no stored result and no job
  status; of the task documents it has changed at most the first one with the given job
  id and task id, and of that one only the status, which is completed when the flag is
  true; and the result it returns is the stored one with the first task of the given id,
  and no other, rewritten, its status completed when the flag is true.  A call that
  returns \<open>null\<close> changes nothing.  \<open>failJob\<close> and \<open>createJob\<close> change no task document
  and no stored result; \<open>saveTasks\<close> appends task documents and changes none;
  \<open>completeJob\<close> changes no task document and no job but the one with the given id.
\<close>

theorem setTaskCompletion_changes_one_task_document:
  "(setTaskCompletion F jid tid b w = Inr (Some res', w') \<longrightarrow>
      (\<exists>job res i. find (\<lambda>j. jobId j = jid) (JobModel w) = Some job \<and> result job = Some res
         \<and> i < length (tasks res) \<and> task_id (tasks res ! i) = tid
         \<and> (\<forall>k < i. task_id (tasks res ! k) \<noteq> tid)
         \<and> length (tasks res') = length (tasks res)
         \<and> (b \<longrightarrow> status (tasks res' ! i) = Completed)
         \<and> (\<forall>k < length (tasks res). k \<noteq> i \<longrightarrow> tasks res' ! k = tasks res ! k))
      \<and> map result (JobModel w') = map result (JobModel w)
      \<and> map job_status (JobModel w') = map job_status (JobModel w)
      \<and> (TaskModel w' = TaskModel w
           \<and> (\<forall>d \<in> set (TaskModel w). doc_jobId d = jid \<longrightarrow> taskId d \<noteq> tid)
         \<or> (\<exists>m s. m < length (TaskModel w)
               \<and> doc_jobId (TaskModel w ! m) = jid \<and> taskId (TaskModel w ! m) = tid
               \<and> (\<forall>k < m. \<not> (doc_jobId (TaskModel w ! k) = jid \<and> taskId (TaskModel w ! k) = tid))
               \<and> TaskModel w' = (TaskModel w)[m := (TaskModel w ! m)\<lparr>doc_status := s\<rparr>]
               \<and> (b \<longrightarrow> s = Completed))))
   \<and> (setTaskCompletion F jid tid b w = Inr (None, w') \<longrightarrow> w' = w)
   \<and> (failJob F jid msg w = Inr w' \<longrightarrow>
         TaskModel w' = TaskModel w \<and> map result (JobModel w') = map result (JobModel w))
   \<and> (createJob H F jid t w = Inr w' \<longrightarrow>
         TaskModel w' = TaskModel w \<and> map result (JobModel w') = map result (JobModel w) @ [None])
   \<and> (saveTasks F jid ts w = Inr w' \<longrightarrow>
         TaskModel w' = TaskModel w @ map (task_doc jid) ts \<and> JobModel w' = JobModel w)
   \<and> (completeJob F jid r w = Inr w' \<longrightarrow>
         TaskModel w' = TaskModel w \<and> length (JobModel w') = length (JobModel w)
         \<and> (\<forall>k < length (JobModel w). jobId (JobModel w ! k) \<noteq> jid \<longrightarrow>
               JobModel w' ! k = JobModel w ! k))"
proof (intro conjI impI)
  assume a: "setTaskCompletion F jid tid b w = Inr (Some res', w')"
  let ?upd = "\<lambda>t. t\<lparr>completed := Some b, status := (if b then Completed else Ready)\<rparr>"
  let ?P = "\<lambda>d. doc_jobId d = jid \<and> taskId d = tid"
  let ?s = "if b then Completed else Ready"
  from setTaskCompletion_Some[OF a] obtain job res msg where
    j: "find (\<lambda>j. jobId j = jid) (JobModel w) = Some job"
    and r: "result job = Some res" and e: "\<exists>x \<in> set (tasks res). task_id x = tid"
    and r': "res' = res\<lparr>tasks := update_first (\<lambda>x. task_id x = tid) ?upd (tasks res)\<rparr>"
    and tm: "TaskModel w' = update_first ?P (\<lambda>d. d\<lparr>doc_status := ?s\<rparr>) (TaskModel w)"
    and jm: "JobModel w' = update_first (\<lambda>j. jobId j = jid)
                 (\<lambda>j. j\<lparr>activities := activities j @ [msg]\<rparr>) (JobModel w)"
    by blast
  from update_first_nth[OF e, of ?upd] obtain i where i: "i < length (tasks res)"
    "task_id (tasks res ! i) = tid" "\<forall>k < i. task_id (tasks res ! k) \<noteq> tid"
    "update_first (\<lambda>x. task_id x = tid) ?upd (tasks res) = (tasks res)[i := ?upd (tasks res ! i)]"
    by blast
  have "length (tasks res') = length (tasks res)"
    "b \<longrightarrow> status (tasks res' ! i) = Completed"
    "\<forall>k < length (tasks res). k \<noteq> i \<longrightarrow> tasks res' ! k = tasks res ! k"
    using r' i(1,4) by auto
  then show "\<exists>job res i. find (\<lambda>j. jobId j = jid) (JobModel w) = Some job \<and> result job = Some res
         \<and> i < length (tasks res) \<and> task_id (tasks res ! i) = tid
         \<and> (\<forall>k < i. task_id (tasks res ! k) \<noteq> tid)
         \<and> length (tasks res') = length (tasks res)
         \<and> (b \<longrightarrow> status (tasks res' ! i) = Completed)
         \<and> (\<forall>k < length (tasks res). k \<noteq> i \<longrightarrow> tasks res' ! k = tasks res ! k)"
    using j r i(1,2,3) by blast
  show "map result (JobModel w') = map result (JobModel w)"
    unfolding jm by (rule map_update_first) simp
  show "map job_status (JobModel w') = map job_status (JobModel w)"
    unfolding jm by (rule map_update_first) simp
  show "TaskModel w' = TaskModel w
           \<and> (\<forall>d \<in> set (TaskModel w). doc_jobId d = jid \<longrightarrow> taskId d \<noteq> tid)
         \<or> (\<exists>m s. m < length (TaskModel w)
               \<and> doc_jobId (TaskModel w ! m) = jid \<and> taskId (TaskModel w ! m) = tid
               \<and> (\<forall>k < m. \<not> (doc_jobId (TaskModel w ! k) = jid \<and> taskId (TaskModel w ! k) = tid))
               \<and> TaskModel w' = (TaskModel w)[m := (TaskModel w ! m)\<lparr>doc_status := s\<rparr>]
               \<and> (b \<longrightarrow> s = Completed))"
  proof (cases "\<exists>d \<in> set (TaskModel w). ?P d")
    case False
    then have "TaskModel w' = TaskModel w" unfolding tm by (rule update_first_none)
    then show ?thesis using False by blast
  next
    case True
    from update_first_nth[OF True, of "\<lambda>d. d\<lparr>doc_status := ?s\<rparr>"] obtain m where
      m: "m < length (TaskModel w)" "?P (TaskModel w ! m)"
      "\<forall>k < m. \<not> ?P (TaskModel w ! k)"
      "TaskModel w' = (TaskModel w)[m := (TaskModel w ! m)\<lparr>doc_status := ?s\<rparr>]"
      unfolding tm by blast
    have "b \<longrightarrow> ?s = Completed" by simp
    with m show ?thesis by blast
  qed
next
  assume "setTaskCompletion F jid tid b w = Inr (None, w')"
  then show "w' = w"
    by (auto simp: setTaskCompletion_def Let_def split: option.splits if_splits)
next
  assume "failJob F jid msg w = Inr w'"
  then show "TaskModel w' = TaskModel w"
    and "map result (JobModel w') = map result (JobModel w)"
    by (auto simp: failJob_def map_update_first split: option.splits)
next
  assume "createJob H F jid t w = Inr w'"
  then show "TaskModel w' = TaskModel w"
    and "map result (JobModel w') = map result (JobModel w) @ [None]"
    by (auto simp: createJob_def new_job_def split: option.splits if_splits)
next
  assume "saveTasks F jid ts w = Inr w'"
  then show "TaskModel w' = TaskModel w @ map (task_doc jid) ts"
    and "JobModel w' = JobModel w"
    by (auto simp: saveTasks_def split: option.splits)
next
  assume c: "completeJob F jid r w = Inr w'"
  then have jm: "JobModel w' = update_first (\<lambda>j. jobId j = jid)
      (\<lambda>j. j\<lparr>job_status := JDone, result := Some r\<rparr>) (JobModel w)"
    by (auto simp: completeJob_def split: option.splits)
  from c show "TaskModel w' = TaskModel w"
    by (auto simp: completeJob_def split: option.splits)
  show "length (JobModel w') = length (JobModel w)"
    unfolding jm by (rule length_update_first)
  show "\<forall>k < length (JobModel w). jobId (JobModel w ! k) \<noteq> jid \<longrightarrow>
               JobModel w' ! k = JobModel w ! k"
    unfolding jm by (simp add: update_first_other)
qed

text \<open>
  The theorem at \<open>done_world\<close>: completing task \<open>a\<close> turns the status of its task document
  from ready to completed, leaves the document of task \<open>x\<close> and the stored result alone,
  and returns the result with \<open>a\<close> completed; a call for a task that does not exist
  changes nothing; and the other operations leave the statuses alone.
\<close>

theorem setTaskCompletion_changes_one_task_document_witness:
  "(\<exists>res' w'. setTaskCompletion no_faults ''j1'' ''a'' True done_world = Inr (Some res', w')
       \<and> map status (tasks res') = [Completed, Error]
       \<and> map doc_status (TaskModel done_world) = [Ready, Error]
       \<and> map doc_status (TaskModel w') = [Completed, Error]
       \<and> map result (JobModel w') = [Some done_result]
       \<and> map job_status (JobModel w') = [JDone]
       \<and> (\<exists>m s. m < length (TaskModel done_world)
             \<and> taskId (TaskModel done_world ! m) = ''a''
             \<and> TaskModel w' = (TaskModel done_world)[m := (TaskModel done_world ! m)\<lparr>doc_status := s\<rparr>]
             \<and> s = Completed))
   \<and> setTaskCompletion no_faults ''j1'' ''zz'' True done_world = Inr (None, done_world)
   \<and> (\<exists>w'. failJob no_faults ''j1'' ''late'' done_world = Inr w'
         \<and> TaskModel w' = TaskModel done_world
         \<and> map result (JobModel w') = map result (JobModel done_world))
   \<and> (\<exists>w'. createJob (\<lambda>s. s) no_faults ''j2'' ''other'' done_world = Inr w'
         \<and> TaskModel w' = TaskModel done_world
         \<and> map result (JobModel w') = map result (JobModel done_world) @ [None])
   \<and> (\<exists>w'. saveTasks no_faults ''j2'' [pending_task ''n'' []] done_world = Inr w'
         \<and> TaskModel w' = TaskModel done_world @ [task_doc ''j2'' (pending_task ''n'' [])]
         \<and> JobModel w' = JobModel done_world)
   \<and> (\<exists>w'. completeJob no_faults ''j2'' done_result done_world = Inr w'
         \<and> TaskModel w' = TaskModel done_world
         \<and> JobModel w' = JobModel done_world)"
proof -
  let ?res' = "done_result\<lparr>tasks :=
          [(pending_task ''a'' [])\<lparr>status := Completed, completed := Some True\<rparr>,
           (pending_task ''x'' [''x''])\<lparr>status := Error\<rparr>]\<rparr>"
  note defs = done_world_def done_result_def no_faults_def new_job_def pending_task_def
    task_doc_def
  obtain w1 where s: "setTaskCompletion no_faults ''j1'' ''a'' True done_world = Inr (Some ?res', w1)"
    by (simp add: setTaskCompletion_def defs Let_def)
  have z: "setTaskCompletion no_faults ''j1'' ''zz'' True done_world = Inr (None, done_world)"
    by (simp add: setTaskCompletion_def defs Let_def)
  obtain w2 where f: "failJob no_faults ''j1'' ''late'' done_world = Inr w2"
    by (simp add: failJob_def no_faults_def)
  obtain w3 where c: "createJob (\<lambda>s. s) no_faults ''j2'' ''other'' done_world = Inr w3"
    by (simp add: createJob_def defs)
  obtain w4 where v: "saveTasks no_faults ''j2'' [pending_task ''n'' []] done_world = Inr w4"
    by (simp add: saveTasks_def no_faults_def)
  obtain w5 where k: "completeJob no_faults ''j2'' done_result done_world = Inr w5"
    by (simp add: completeJob_def no_faults_def)
  note t1 = setTaskCompletion_changes_one_task_document[where F = no_faults and jid = "''j1''"
      and tid = "''a''" and b = True and w = done_world and res' = ?res' and w' = w1]
  note t2 = setTaskCompletion_changes_one_task_document[where F = no_faults and jid = "''j1''"
      and msg = "''late''" and w = done_world and w' = w2]
  note t3 = setTaskCompletion_changes_one_task_document[where F = no_faults and jid = "''j2''"
      and H = "\<lambda>s. s" and t = "''other''" and w = done_world and w' = w3]
  note t4 = setTaskCompletion_changes_one_task_document[where F = no_faults and jid = "''j2''"
      and ts = "[pending_task ''n'' []]" and w = done_world and w' = w4]
  note t5 = setTaskCompletion_changes_one_task_document[where F = no_faults and jid = "''j2''"
      and r = done_result and w = done_world and w' = w5]
  from conjunct1[OF t1] s have
    a1: "map result (JobModel w1) = map result (JobModel done_world)"
    and a2: "map job_status (JobModel w1) = map job_status (JobModel done_world)"
    and a3: "TaskModel w1 = TaskModel done_world
           \<and> (\<forall>d \<in> set (TaskModel done_world). doc_jobId d = ''j1'' \<longrightarrow> taskId d \<noteq> ''a'')
         \<or> (\<exists>m s. m < length (TaskModel done_world)
               \<and> doc_jobId (TaskModel done_world ! m) = ''j1''
               \<and> taskId (TaskModel done_world ! m) = ''a''
               \<and> (\<forall>k < m. \<not> (doc_jobId (TaskModel done_world ! k) = ''j1''
                               \<and> taskId (TaskModel done_world ! k) = ''a''))
               \<and> TaskModel w1 = (TaskModel done_world)[m := (TaskModel done_world ! m)\<lparr>doc_status := s\<rparr>]
               \<and> (True \<longrightarrow> s = Completed))"
    by blast+
  have "\<not> (\<forall>d \<in> set (TaskModel done_world). doc_jobId d = ''j1'' \<longrightarrow> taskId d \<noteq> ''a'')"
    by (simp add: defs)
  with a3 obtain m s where m: "m < length (TaskModel done_world)"
    "taskId (TaskModel done_world ! m) = ''a''"
    "TaskModel w1 = (TaskModel done_world)[m := (TaskModel done_world ! m)\<lparr>doc_status := s\<rparr>]"
    "s = Completed"
    by blast
  have m0: "m = 0"
  proof (rule ccontr)
    assume "m \<noteq> 0"
    then have "m = 1" using m(1) by (simp add: defs)
    then show False using m(2) by (simp add: defs)
  qed
  have d1: "map doc_status (TaskModel w1) = [Completed, Error]"
    using m(3,4) m0 by (simp add: defs)
  have d0: "map doc_status (TaskModel done_world) = [Ready, Error]"
    by (simp add: defs)
  have p1: "\<exists>res' w'. setTaskCompletion no_faults ''j1'' ''a'' True done_world = Inr (Some res', w')
       \<and> map status (tasks res') = [Completed, Error]
       \<and> map doc_status (TaskModel done_world) = [Ready, Error]
       \<and> map doc_status (TaskModel w') = [Completed, Error]
       \<and> map result (JobModel w') = [Some done_result]
       \<and> map job_status (JobModel w') = [JDone]
       \<and> (\<exists>m s. m < length (TaskModel done_world)
             \<and> taskId (TaskModel done_world ! m) = ''a''
             \<and> TaskModel w' = (TaskModel done_world)[m := (TaskModel done_world ! m)\<lparr>doc_status := s\<rparr>]
             \<and> s = Completed)"
  proof (intro exI[of _ ?res'] exI[of _ w1] conjI)
    show "setTaskCompletion no_faults ''j1'' ''a'' True done_world = Inr (Some ?res', w1)"
      by (rule s)
    show "map status (tasks ?res') = [Completed, Error]" by (simp add: pending_task_def)
    show "map doc_status (TaskModel done_world) = [Ready, Error]" by (rule d0)
    show "map doc_status (TaskModel w1) = [Completed, Error]" by (rule d1)
    show "map result (JobModel w1) = [Some done_result]"
      using a1 by (simp add: done_world_def)
    show "map job_status (JobModel w1) = [JDone]"
      using a2 by (simp add: done_world_def)
    show "\<exists>m s. m < length (TaskModel done_world)
             \<and> taskId (TaskModel done_world ! m) = ''a''
             \<and> TaskModel w1 = (TaskModel done_world)[m := (TaskModel done_world ! m)\<lparr>doc_status := s\<rparr>]
             \<and> s = Completed"
      using m by blast
  qed
  from conjunct1[OF conjunct2[OF conjunct2[OF t2]]] f
  have p2: "\<exists>w'. failJob no_faults ''j1'' ''late'' done_world = Inr w'
         \<and> TaskModel w' = TaskModel done_world
         \<and> map result (JobModel w') = map result (JobModel done_world)"
    by blast
  from conjunct1[OF conjunct2[OF conjunct2[OF conjunct2[OF t3]]]] c
  have p3: "\<exists>w'. createJob (\<lambda>s. s) no_faults ''j2'' ''other'' done_world = Inr w'
         \<and> TaskModel w' = TaskModel done_world
         \<and> map result (JobModel w') = map result (JobModel done_world) @ [None]"
    by blast
  from conjunct1[OF conjunct2[OF conjunct2[OF conjunct2[OF conjunct2[OF t4]]]]] v
  have p4: "\<exists>w'. saveTasks no_faults ''j2'' [pending_task ''n'' []] done_world = Inr w'
         \<and> TaskModel w' = TaskModel done_world @ [task_doc ''j2'' (pending_task ''n'' [])]
         \<and> JobModel w' = JobModel done_world"
    by auto
  from conjunct2[OF conjunct2[OF conjunct2[OF conjunct2[OF conjunct2[OF t5]]]]] k
  have k5: "TaskModel w5 = TaskModel done_world" "length (JobModel w5) = length (JobModel done_world)"
    "\<forall>k < length (JobModel done_world). jobId (JobModel done_world ! k) \<noteq> ''j2'' \<longrightarrow>
               JobModel w5 ! k = JobModel done_world ! k"
    by blast+
  have "JobModel w5 = JobModel done_world"
  proof (rule nth_equalityI)
    show "length (JobModel w5) = length (JobModel done_world)" by (rule k5(2))
    fix i assume "i < length (JobModel w5)"
    then have "i < length (JobModel done_world)" using k5(2) by simp
    moreover from this have "jobId (JobModel done_world ! i) \<noteq> ''j2''"
      by (simp add: defs)
    ultimately show "JobModel w5 ! i = JobModel done_world ! i" using k5(3) by blast
  qed
  then have p5: "\<exists>w'. completeJob no_faults ''j2'' done_result done_world = Inr w'
         \<and> TaskModel w' = TaskModel done_world
         \<and> JobModel w' = JobModel done_world"
    using k k5(1) by blast
  show ?thesis using p1 z p2 p3 p4 p5 by blast
qed

end
